theory Spec2Isabelle
  imports Main
begin

section \<open>JavaScript strings\<close>

text \<open>
  A JavaScript string is modelled as a \<open>string\<close> whose characters are read as code units
  below 256 (Latin-1). The character classes below are the restrictions of the JavaScript
  classes to that range.
\<close>

text \<open>\<open>\s\<close> and \<open>String.prototype.trim\<close>: TAB, LF, VT, FF, CR, space and NBSP.\<close>

definition isSpace :: "char \<Rightarrow> bool" where
  "isSpace c \<longleftrightarrow>
     c \<in> {CHR 0x09, CHR 0x0A, CHR 0x0B, CHR 0x0C, CHR 0x0D, CHR 0x20, CHR 0xA0}"

definition isUpperAZ :: "char \<Rightarrow> bool" where
  "isUpperAZ c \<longleftrightarrow> c \<in> set ''ABCDEFGHIJKLMNOPQRSTUVWXYZ''"

definition isLowerAZ :: "char \<Rightarrow> bool" where
  "isLowerAZ c \<longleftrightarrow> c \<in> set ''abcdefghijklmnopqrstuvwxyz''"

definition isDigit :: "char \<Rightarrow> bool" where
  "isDigit c \<longleftrightarrow> c \<in> set ''0123456789''"

text \<open>\<open>\w\<close>: letters, digits and the underscore.\<close>

definition isWordChar :: "char \<Rightarrow> bool" where
  "isWordChar c \<longleftrightarrow> isUpperAZ c \<or> isLowerAZ c \<or> isDigit c \<or> c = CHR ''_''"

definition upperChars :: string where
  "upperChars = ''ABCDEFGHIJKLMNOPQRSTUVWXYZ'' @
     [CHR 0xC0, CHR 0xC1, CHR 0xC2, CHR 0xC3, CHR 0xC4, CHR 0xC5, CHR 0xC6, CHR 0xC7,
      CHR 0xC8, CHR 0xC9, CHR 0xCA, CHR 0xCB, CHR 0xCC, CHR 0xCD, CHR 0xCE, CHR 0xCF,
      CHR 0xD0, CHR 0xD1, CHR 0xD2, CHR 0xD3, CHR 0xD4, CHR 0xD5, CHR 0xD6,
      CHR 0xD8, CHR 0xD9, CHR 0xDA, CHR 0xDB, CHR 0xDC, CHR 0xDD, CHR 0xDE]"

definition lowerChars :: string where
  "lowerChars = ''abcdefghijklmnopqrstuvwxyz'' @
     [CHR 0xE0, CHR 0xE1, CHR 0xE2, CHR 0xE3, CHR 0xE4, CHR 0xE5, CHR 0xE6, CHR 0xE7,
      CHR 0xE8, CHR 0xE9, CHR 0xEA, CHR 0xEB, CHR 0xEC, CHR 0xED, CHR 0xEE, CHR 0xEF,
      CHR 0xF0, CHR 0xF1, CHR 0xF2, CHR 0xF3, CHR 0xF4, CHR 0xF5, CHR 0xF6,
      CHR 0xF8, CHR 0xF9, CHR 0xFA, CHR 0xFB, CHR 0xFC, CHR 0xFD, CHR 0xFE]"

definition lowerChar :: "char \<Rightarrow> char" where
  "lowerChar c = (case map_of (zip upperChars lowerChars) c of Some d \<Rightarrow> d | None \<Rightarrow> c)"

text \<open>\<open>String.prototype.toLowerCase\<close>.\<close>

definition toLowerCase :: "string \<Rightarrow> string" where
  "toLowerCase s = map lowerChar s"

text \<open>\<open>s.endsWith(suffix)\<close>.\<close>

definition endsWith :: "string \<Rightarrow> string \<Rightarrow> bool" where
  "endsWith s suffix \<longleftrightarrow>
     length suffix \<le> length s \<and> drop (length s - length suffix) s = suffix"

text \<open>\<open>s.slice(0, -k)\<close>: everything but the last \<open>k\<close> code units, empty when \<open>k\<close> exceeds the length.\<close>

definition sliceEnd :: "string \<Rightarrow> nat \<Rightarrow> string" where
  "sliceEnd s k = take (length s - k) s"

text \<open>\<open>s.trim()\<close>.\<close>

definition trim :: "string \<Rightarrow> string" where
  "trim s = rev (dropWhile isSpace (rev (dropWhile isSpace s)))"

text \<open>\<open>xs.join(sep)\<close> on an array of strings.\<close>

fun join :: "string \<Rightarrow> string list \<Rightarrow> string" where
  "join sep [] = []"
| "join sep [x] = x"
| "join sep (x # y # ys) = x @ sep @ join sep (y # ys)"

text \<open>A thrown \<open>Error\<close> object, with its message.\<close>

datatype jsError = Error string

section \<open>Keyword normalisation (processors/markdown.ts)\<close>

definition normalizeKeyword :: "string \<Rightarrow> string" where
  "normalizeKeyword keyword =
     (if endsWith keyword ''s'' \<and> length keyword > 1 then
        (let singular = sliceEnd keyword 1 in
         if endsWith keyword ''es'' then sliceEnd keyword 2
         else if endsWith keyword ''ies'' then sliceEnd keyword 3 @ ''y''
         else singular)
      else keyword)"

section \<open>Provider dispatch (llm/providers.ts)\<close>

text \<open>
  The seven provider classes. A constructed provider keeps the configuration it was given;
  the \<open>name\<close> field of each class is \<open>providerName\<close>.
\<close>

datatype providerClass =
  DeepSeekProvider | OpenAIProvider | AzureProvider | GoogleProvider
  | AnthropicProvider | MistralProvider | OllamaProvider

fun providerName :: "providerClass \<Rightarrow> string" where
  "providerName DeepSeekProvider = ''deepseek''"
| "providerName OpenAIProvider = ''openai''"
| "providerName AzureProvider = ''azure''"
| "providerName GoogleProvider = ''google''"
| "providerName AnthropicProvider = ''anthropic''"
| "providerName MistralProvider = ''mistral''"
| "providerName OllamaProvider = ''ollama''"

record 'cfg LLMProvider =
  providerCls :: providerClass
  providerConfig :: 'cfg

definition newProvider :: "providerClass \<Rightarrow> 'cfg \<Rightarrow> 'cfg LLMProvider" where
  "newProvider cls config = \<lparr> providerCls = cls, providerConfig = config \<rparr>"

definition getProvider :: "string \<Rightarrow> 'cfg \<Rightarrow> jsError + 'cfg LLMProvider" where
  "getProvider name config =
     (let lowered = toLowerCase name in
      if lowered = ''deepseek'' then Inr (newProvider DeepSeekProvider config)
      else if lowered = ''openai'' then Inr (newProvider OpenAIProvider config)
      else if lowered = ''azure'' then Inr (newProvider AzureProvider config)
      else if lowered = ''google'' then Inr (newProvider GoogleProvider config)
      else if lowered = ''anthropic'' then Inr (newProvider AnthropicProvider config)
      else if lowered = ''mistral'' then Inr (newProvider MistralProvider config)
      else if lowered = ''ollama'' then Inr (newProvider OllamaProvider config)
      else Inl (Error (''Unknown provider: '' @ name)))"

section \<open>Chunk orchestration (processors/markdown.ts, steps 1 to 3)\<close>

text \<open>
  The annotation backend is \<open>provider.processMarkdown\<close>: it receives a chunk and either
  throws (an API error, a timeout, a reply it cannot read) or resolves with a value. The
  interface declares that value a string, but nothing checks it at run time:
  \<open>DeepSeekProvider\<close> resolves with \<open>data.choices[0].message.content\<close> as the reply has
  it, which is \<open>undefined\<close> for a message without content and \<open>null\<close> for a content that
  is null. A value is therefore \<open>undefined\<close>, \<open>null\<close>, a string, or any other value, kept
  as the text that \<open>String(value)\<close> gives for it. The calls of the backend are sequenced
  through a state of its own, so that the order of the calls is part of the model.
\<close>

datatype jsValue = Undefined | Null | Str string | Other string

type_synonym 's backend = "string \<Rightarrow> 's \<Rightarrow> (jsError + jsValue) \<times> 's"

text \<open>
  The \<open>for ... of chunks.entries()\<close> loop with its \<open>try/catch\<close>: the value the call
  resolved with is pushed as it is, the chunk is pushed when the call threw.
\<close>

fun processChunks :: "'s backend \<Rightarrow> string list \<Rightarrow> jsValue list \<Rightarrow> 's \<Rightarrow> jsValue list \<times> 's" where
  "processChunks provider [] processedChunks st = (processedChunks, st)"
| "processChunks provider (chunk # chunks) processedChunks st =
     (case provider chunk st of
        (Inr processed, st') \<Rightarrow> processChunks provider chunks (processedChunks @ [processed]) st'
      | (Inl err, st') \<Rightarrow> processChunks provider chunks (processedChunks @ [Str chunk]) st')"

text \<open>
  The text \<open>Array.prototype.join\<close> gives an element: the empty string for \<open>undefined\<close> and
  \<open>null\<close>, the string conversion for any other value.
\<close>

fun elementText :: "jsValue \<Rightarrow> string" where
  "elementText Undefined = []"
| "elementText Null = []"
| "elementText (Str s) = s"
| "elementText (Other s) = s"

text \<open>Steps 2 and 3: process every chunk, then \<open>processedChunks.join('\n\n')\<close>.\<close>

definition mergeChunks :: "'s backend \<Rightarrow> string list \<Rightarrow> 's \<Rightarrow> string \<times> 's" where
  "mergeChunks provider chunks st =
     (let (processedChunks, st') = processChunks provider chunks [] st
      in (join [CHR 0x0A, CHR 0x0A] (map elementText processedChunks), st'))"

section \<open>Regular expression scans\<close>

text \<open>
  A global scan of a string by a regular expression: the engine tries the expression at
  every position from left to right; where it matches, the match is recorded with its first
  capture group and the scan resumes behind the match. A matcher gives, for the text at a
  position, the matched text and the capture. (After an empty match the engine steps over one
  character; none of the expressions below matches the empty string.)
\<close>

datatype seg = Lit char | Hit string string

function scanRegex :: "(string \<Rightarrow> (string \<times> string) option) \<Rightarrow> string \<Rightarrow> seg list" where
  "scanRegex m [] = (case m [] of Some (mt, cap) \<Rightarrow> [Hit mt cap] | None \<Rightarrow> [])"
| "scanRegex m (c # cs) =
     (case m (c # cs) of
        None \<Rightarrow> Lit c # scanRegex m cs
      | Some (mt, cap) \<Rightarrow>
          if mt = [] then Hit mt cap # Lit c # scanRegex m cs
          else Hit mt cap # scanRegex m (drop (length mt) (c # cs)))"
  by pat_completeness auto
termination
  by (relation "measure (\<lambda>(m, s). length s)") auto

text \<open>\<open>s.replace(regex, replacement)\<close> for a global regex and a constant replacement.\<close>

definition replaceAll :: "(string \<Rightarrow> (string \<times> string) option) \<Rightarrow> string \<Rightarrow> string \<Rightarrow> string" where
  "replaceAll m replacement s =
     concat (map (\<lambda>sg. case sg of Lit c \<Rightarrow> [c] | Hit mt cap \<Rightarrow> replacement) (scanRegex m s))"

definition notBracket :: "char \<Rightarrow> bool" where
  "notBracket c \<longleftrightarrow> c \<noteq> CHR ''['' \<and> c \<noteq> CHR '']''"

text \<open>
  \<open>/\[\[([^\[\]]+)\]\]/\<close> at the start of \<open>s\<close>. The greedy class takes the whole run of
  characters that are not brackets; giving characters back cannot help, since the character
  given back is not \<open>]\<close>.
\<close>

definition matchMarkup :: "string \<Rightarrow> (string \<times> string) option" where
  "matchMarkup s =
     (if take 2 s = ''[['' then
        (let keyword = takeWhile notBracket (drop 2 s);
             rest = dropWhile notBracket (drop 2 s)
         in if keyword \<noteq> [] \<and> take 2 rest = '']]''
            then Some (''[['' @ keyword @ '']]'', keyword) else None)
      else None)"

text \<open>\<open>[A-Z][a-z]+\<close> as a whole word.\<close>

definition isCapWord :: "string \<Rightarrow> bool" where
  "isCapWord w \<longleftrightarrow>
     (case w of [] \<Rightarrow> False | c # cs \<Rightarrow> isUpperAZ c \<and> cs \<noteq> [] \<and> list_all isLowerAZ cs)"

text \<open>The pieces of \<open>s\<close> between single spaces.\<close>

fun splitSpaces :: "string \<Rightarrow> string \<Rightarrow> string list" where
  "splitSpaces cur [] = [cur]"
| "splitSpaces cur (c # cs) =
     (if c = CHR '' '' then cur # splitSpaces [] cs else splitSpaces (cur @ [c]) cs)"

text \<open>\<open>[A-Z][a-z]+(?: [A-Z][a-z]+)*\<close> as a whole string.\<close>

definition isCapPhrase :: "string \<Rightarrow> bool" where
  "isCapPhrase w \<longleftrightarrow> list_all isCapWord (splitSpaces [] w)"

text \<open>\<open>[\d]{4}s?\<close> as a whole string.\<close>

definition isYear :: "string \<Rightarrow> bool" where
  "isYear w \<longleftrightarrow>
     (length w = 4 \<and> list_all isDigit w)
     \<or> (length w = 5 \<and> list_all isDigit (take 4 w) \<and> drop 4 w = ''s'')"

text \<open>
  \<open>/\[\[(?:[A-Z][a-z]+(?: [A-Z][a-z]+)*|[\d]{4}s?)\]\]/\<close> at the start of \<open>s\<close>. No class
  of the alternation contains \<open>]\<close>, so the content of a match is the text up to the first
  \<open>]\<close>, it must be followed by \<open>]]\<close>, and it must belong to one of the two alternatives.
\<close>

definition matchConventionalName :: "string \<Rightarrow> (string \<times> string) option" where
  "matchConventionalName s =
     (if take 2 s = ''[['' then
        (let w = takeWhile (\<lambda>c. c \<noteq> CHR '']'') (drop 2 s);
             rest = dropWhile (\<lambda>c. c \<noteq> CHR '']'') (drop 2 s)
         in if take 2 rest = '']]'' \<and> (isCapPhrase w \<or> isYear w)
            then Some (''[['' @ w @ '']]'', []) else None)
      else None)"

text \<open>\<open>(?:@|https?:\/\/)[^\[\]]+\<close> as a whole string of characters that are not brackets.\<close>

definition isReference :: "string \<Rightarrow> bool" where
  "isReference w \<longleftrightarrow>
     (take 1 w = ''@'' \<and> length w > 1)
     \<or> (take 7 w = ''http://'' \<and> length w > 7)
     \<or> (take 8 w = ''https://'' \<and> length w > 8)"

text \<open>\<open>/\[\[(?:@|https?:\/\/)[^\[\]]+\]\]/\<close> at the start of \<open>s\<close>.\<close>

definition matchReference :: "string \<Rightarrow> (string \<times> string) option" where
  "matchReference s =
     (if take 2 s = ''[['' then
        (let w = takeWhile notBracket (drop 2 s);
             rest = dropWhile notBracket (drop 2 s)
         in if take 2 rest = '']]'' \<and> isReference w
            then Some (''[['' @ w @ '']]'', []) else None)
      else None)"

section \<open>Rule engine (processors/markdown.ts, prompts.ts)\<close>

record processingRules =
  NO_CONTENT_CHANGES :: bool
  SKIP_CONVENTIONAL_NAMES :: bool
  OUTPUT_FULL_CONTENT :: bool
  REMOVE_DUPLICATES :: bool
  IGNORE_REFERENCES :: bool

definition PROCESSING_RULES :: processingRules where
  "PROCESSING_RULES = \<lparr> NO_CONTENT_CHANGES = True, SKIP_CONVENTIONAL_NAMES = True,
     OUTPUT_FULL_CONTENT = True, REMOVE_DUPLICATES = True, IGNORE_REFERENCES = True \<rparr>"

text \<open>Rule 2: every span that looks like a name or a year is replaced by the empty string.\<close>

definition skipConventionalNames :: "string \<Rightarrow> string" where
  "skipConventionalNames processed = replaceAll matchConventionalName [] processed"

text \<open>
  Rule 4: the replacement callback, called for the matches from left to right with the set
  \<open>seen\<close> it closes over.
\<close>

fun dedupSegs :: "string set \<Rightarrow> seg list \<Rightarrow> string" where
  "dedupSegs seen [] = []"
| "dedupSegs seen (Lit c # segs) = c # dedupSegs seen segs"
| "dedupSegs seen (Hit match keyword # segs) =
     (let normalized = normalizeKeyword keyword
      in if normalized \<in> seen then keyword @ dedupSegs seen segs
         else match @ dedupSegs (insert normalized seen) segs)"

definition removeDuplicates :: "string \<Rightarrow> string" where
  "removeDuplicates processed = dedupSegs {} (scanRegex matchMarkup processed)"

text \<open>Rule 5: every span holding a reference is replaced by the empty string.\<close>

definition ignoreReferences :: "string \<Rightarrow> string" where
  "ignoreReferences processed = replaceAll matchReference [] processed"

definition applyRulesWith :: "processingRules \<Rightarrow> string \<Rightarrow> string" where
  "applyRulesWith rules content =
     (let processed = content;
          processed = (if SKIP_CONVENTIONAL_NAMES rules
                       then skipConventionalNames processed else processed);
          processed = (if REMOVE_DUPLICATES rules
                       then removeDuplicates processed else processed);
          processed = (if IGNORE_REFERENCES rules
                       then ignoreReferences processed else processed)
      in processed)"

definition applyRules :: "string \<Rightarrow> string" where
  "applyRules content = applyRulesWith PROCESSING_RULES content"

text \<open>
  The text of a segment of a scan, the captures of its matches in order, and the text the
  duplicate rule leaves for segment \<open>j\<close> when the forms in \<open>seen\<close> and those of the spans
  before \<open>j\<close> count as seen.
\<close>

fun segText :: "seg \<Rightarrow> string" where
  "segText (Lit c) = [c]"
| "segText (Hit mt cap) = mt"

fun hitKeywords :: "seg list \<Rightarrow> string list" where
  "hitKeywords [] = []"
| "hitKeywords (Lit c # segs) = hitKeywords segs"
| "hitKeywords (Hit mt cap # segs) = cap # hitKeywords segs"

definition renderSeg :: "string set \<Rightarrow> seg list \<Rightarrow> nat \<Rightarrow> string" where
  "renderSeg seen segs j =
     (case segs ! j of
        Lit c \<Rightarrow> [c]
      | Hit mt keyword \<Rightarrow>
          if normalizeKeyword keyword \<in> seen \<union> normalizeKeyword ` set (hitKeywords (take j segs))
          then keyword else mt)"

section \<open>Chunker (processors/fileSplitter.ts)\<close>

text \<open>
  \<open>\s*\n+\<close> at the start of a string, as the backtracking engine runs it: the star takes
  a whitespace character and tries the rest; if that fails it stops in front of the
  character, which must then start the run of line feeds. The result is the length of the
  match.
\<close>

fun sepTail :: "string \<Rightarrow> nat option" where
  "sepTail [] = None"
| "sepTail (c # cs) =
     (if isSpace c then
        (case sepTail cs of
           Some n \<Rightarrow> Some (Suc n)
         | None \<Rightarrow>
             if c = CHR 0x0A then Some (Suc (length (takeWhile (\<lambda>d. d = CHR 0x0A) cs)))
             else None)
      else None)"

text \<open>
  \<open>content.split(/(\n\s*\n+)/)\<close>: the texts between the separators at the even indices,
  the separators (the capture group) at the odd ones. \<open>cur\<close> is the text since the last
  separator.
\<close>

fun splitParagraphs :: "string \<Rightarrow> string \<Rightarrow> string list" where
  "splitParagraphs cur [] = [cur]"
| "splitParagraphs cur (c # cs) =
     (if c = CHR 0x0A then
        (case sepTail cs of
           Some n \<Rightarrow> cur # (c # take n cs) # splitParagraphs [] (drop n cs)
         | None \<Rightarrow> splitParagraphs (cur @ [c]) cs)
      else splitParagraphs (cur @ [c]) cs)"

text \<open>\<open>para.split(/\s+/)\<close>: a separator is a whole run of whitespace.\<close>

function splitWs :: "string \<Rightarrow> string \<Rightarrow> string list" where
  "splitWs cur [] = [cur]"
| "splitWs cur (c # cs) =
     (if isSpace c then cur # splitWs [] (dropWhile isSpace cs)
      else splitWs (cur @ [c]) cs)"
  by pat_completeness auto
termination
  by (relation "measure (\<lambda>(cur, s). length s)")
     (auto simp: less_Suc_eq_le length_dropWhile_le)

text \<open>\<open>para.split(/\s+/).length\<close>, the size the chunker gives a paragraph.\<close>

definition paraWordCount :: "string \<Rightarrow> nat" where
  "paraWordCount para = length (splitWs [] para)"

text \<open>
  The loop over \<open>paragraphs\<close> with \<open>i += 2\<close>: \<open>para\<close> is \<open>paragraphs[i]\<close>, the head of
  \<open>rest\<close> is \<open>paragraphs[i+1]\<close> (the empty string when there is none). The result is the
  state of \<open>chunks\<close>, \<open>currentChunk\<close> and \<open>currentCount\<close> behind the loop.
\<close>

fun splitLoop ::
  "int \<Rightarrow> string list \<Rightarrow> string list \<Rightarrow> string list \<Rightarrow> nat
     \<Rightarrow> string list \<times> string list \<times> nat" where
  "splitLoop chunkSize [] chunks currentChunk currentCount =
     (chunks, currentChunk, currentCount)"
| "splitLoop chunkSize (para # rest) chunks currentChunk currentCount =
     (if trim para = [] then splitLoop chunkSize (drop 1 rest) chunks currentChunk currentCount
      else
        (let paraWords = paraWordCount para;
             flush = (int (currentCount + paraWords) > chunkSize \<and> currentCount > 0);
             chunks' = (if flush then chunks @ [concat currentChunk] else chunks);
             currentChunk' = (if flush then [] else currentChunk);
             currentCount' = (if flush then 0 else currentCount)
         in splitLoop chunkSize (drop 1 rest) chunks'
              (currentChunk' @ [para @ (case rest of [] \<Rightarrow> [] | sep # _ \<Rightarrow> sep)])
              (currentCount' + paraWords)))"

text \<open>
  \<open>splitMarkdown\<close>. Nothing in the \<open>try\<close> block throws on a string, so the \<open>catch\<close>
  branch (the whole content as one chunk) is not reached.
\<close>

definition splitMarkdown :: "string \<Rightarrow> int \<Rightarrow> string list" where
  "splitMarkdown content chunkSize =
     (let paragraphs = splitParagraphs [] content;
          (chunks, currentChunk, currentCount) = splitLoop chunkSize paragraphs [] [] 0
      in if length currentChunk > 0 then chunks @ [concat currentChunk] else chunks)"

section \<open>processMarkdown (processors/markdown.ts)\<close>

text \<open>Step 1: the chunker runs only on a content longer than twice the chunk size.\<close>

definition selectChunks :: "string \<Rightarrow> int \<Rightarrow> string list" where
  "selectChunks content chunkSize =
     (if int (length content) > chunkSize * 2 then splitMarkdown content chunkSize
      else [content])"

text \<open>
  Steps 1 to 4, the text that \<open>processMarkdown\<close> resolves with, for the backend of the
  provider that \<open>getProvider\<close> has returned. Step 5 runs only when an output path is given
  and does not change that text; the deadline of \<open>scheduleWithTimeout\<close> is real time and
  is not modelled.
\<close>

definition processMarkdown :: "'s backend \<Rightarrow> string \<Rightarrow> int \<Rightarrow> 's \<Rightarrow> string \<times> 's" where
  "processMarkdown provider content chunkSize st =
     (let chunks = selectChunks content chunkSize;
          (processed, st') = mergeChunks provider chunks st
      in (applyRules processed, st'))"

text \<open>
  Two notions used to state the order of the backend calls: the backend state after the
  calls for a list of chunks, and the outcome of the call for chunk \<open>j\<close>, made in the state
  the calls for the chunks before it have left.
\<close>

definition stateAfter :: "'s backend \<Rightarrow> 's \<Rightarrow> string list \<Rightarrow> 's" where
  "stateAfter provider st chunks = foldl (\<lambda>s chunk. snd (provider chunk s)) st chunks"

definition callOutcome :: "'s backend \<Rightarrow> 's \<Rightarrow> string list \<Rightarrow> nat \<Rightarrow> jsError + jsValue" where
  "callOutcome provider st chunks j =
     fst (provider (chunks ! j) (stateAfter provider st (take j chunks)))"

text \<open>
  The value recorded for chunk \<open>j\<close>: the value its call resolved with, or the chunk itself
  when its call threw.
\<close>

definition chunkResult :: "'s backend \<Rightarrow> 's \<Rightarrow> string list \<Rightarrow> nat \<Rightarrow> jsValue" where
  "chunkResult provider st chunks j =
     (case callOutcome provider st chunks j of Inr processed \<Rightarrow> processed | Inl err \<Rightarrow> Str (chunks ! j))"

text \<open>A backend that also records, in order, the chunks it is called with.\<close>

definition traced :: "'s backend \<Rightarrow> ('s \<times> string list) backend" where
  "traced provider chunk = (\<lambda>(st, calls).
     (fst (provider chunk st), (snd (provider chunk st), calls @ [chunk])))"

text \<open>
  A backend that annotates a chunk by bracketing it and counts its calls; on the chunk
  \<open>b\<close> it resolves with \<open>undefined\<close>, as \<open>DeepSeekProvider\<close> does on a reply whose message
  has no content.
\<close>

definition noContentBackend :: "nat backend" where
  "noContentBackend chunk st =
     (if chunk = ''b'' then Inr Undefined else Inr (Str (''[['' @ chunk @ '']]'')), Suc st)"

text \<open>
  The whitespace-delimited tokens of a text: the non-empty pieces between runs of
  whitespace.
\<close>

definition tokenCount :: "string \<Rightarrow> nat" where
  "tokenCount s = length (filter (\<lambda>t. t \<noteq> []) (splitWs [] s))"

text \<open>
  The paragraphs of the split array with their separators: \<open>(paragraphs[i],
  paragraphs[i+1] || '')\<close> for the even \<open>i\<close>; and those the chunker keeps.
\<close>

fun pairUp :: "string list \<Rightarrow> (string \<times> string) list" where
  "pairUp [] = []"
| "pairUp [para] = [(para, [])]"
| "pairUp (para # sep # rest) = (para, sep) # pairUp rest"

definition keptParagraphs :: "string \<Rightarrow> (string \<times> string) list" where
  "keptParagraphs content =
     filter (\<lambda>(para, sep). trim para \<noteq> []) (pairUp (splitParagraphs [] content))"

text \<open>
  Notions used to state the size bound of the chunker: the text of a group of paragraphs
  (each with its separator), and the sum of the sizes the chunker gives them.
\<close>

definition chunkOf :: "(string \<times> string) list \<Rightarrow> string" where
  "chunkOf g = concat (map (\<lambda>(para, sep). para @ sep) g)"

definition pwSum :: "(string \<times> string) list \<Rightarrow> nat" where
  "pwSum g = sum_list (map (\<lambda>(para, sep). paraWordCount para) g)"

text \<open>
  Auxiliary notions for the proofs about the chunker: the loop of \<open>splitMarkdown\<close> read
  over the paragraphs paired with their separators, the number of tokens that start in a
  text (\<open>b\<close> tells whether a token may start at its first character), and the bound a
  group of paragraphs in one chunk obeys.
\<close>

fun loopPairs ::
  "int \<Rightarrow> (string \<times> string) list \<Rightarrow> string list \<Rightarrow> string list \<Rightarrow> nat
     \<Rightarrow> string list \<times> string list \<times> nat" where
  "loopPairs chunkSize [] chunks currentChunk currentCount =
     (chunks, currentChunk, currentCount)"
| "loopPairs chunkSize ((para, sep) # ps) chunks currentChunk currentCount =
     (if trim para = [] then loopPairs chunkSize ps chunks currentChunk currentCount
      else if int (currentCount + paraWordCount para) > chunkSize \<and> currentCount > 0
      then loopPairs chunkSize ps (chunks @ [concat currentChunk]) [para @ sep]
             (paraWordCount para)
      else loopPairs chunkSize ps chunks (currentChunk @ [para @ sep])
             (currentCount + paraWordCount para))"

fun tokStarts :: "bool \<Rightarrow> string \<Rightarrow> nat" where
  "tokStarts b [] = 0"
| "tokStarts b (c # cs) = (if \<not> isSpace c \<and> b then 1 else 0) + tokStarts (isSpace c) cs"

definition groupOk :: "int \<Rightarrow> (string \<times> string) list \<Rightarrow> bool" where
  "groupOk chunkSize g \<longleftrightarrow> length g \<le> 1 \<or> int (pwSum g) \<le> chunkSize"

section \<open>File system\<close>

text \<open>
  What the logger is called with, and the file-system calls that may throw. A fault is the
  error a call throws for a given file, if it throws.
\<close>

datatype logEntry = LogInfo string | LogError string

record fsFaults =
  readdirError :: "jsError option"
  statError :: "string \<Rightarrow> jsError option"
  unlinkError :: "string \<Rightarrow> jsError option"
  mkdirError :: "jsError option"
  writeError :: "string \<Rightarrow> jsError option"

definition noFaults :: fsFaults where
  "noFaults = \<lparr> readdirError = None, statError = (\<lambda>f. None), unlinkError = (\<lambda>f. None),
     mkdirError = None, writeError = (\<lambda>f. None) \<rparr>"

text \<open>An error interpolated into a template string.\<close>

fun errorString :: "jsError \<Rightarrow> string" where
  "errorString (Error msg) = ''Error: '' @ msg"

section \<open>Duplicate file reconciler (processors/fileCleaner.ts)\<close>

text \<open>
  The output directory: its entries in the order \<open>readdir\<close> lists them, each with its
  creation time in milliseconds, and the log.
\<close>

record outputDir =
  dirFiles :: "(string \<times> int) list"
  dirLog :: "logEntry list"

definition isAlnum :: "char \<Rightarrow> bool" where
  "isAlnum c \<longleftrightarrow> isUpperAZ c \<or> isLowerAZ c \<or> isDigit c"

definition normalizeFileName :: "string \<Rightarrow> string" where
  "normalizeFileName filename =
     toLowerCase (filter isAlnum
       (if endsWith filename ''.md'' then sliceEnd filename 3 else filename))"

text \<open>
  The \<open>Map\<close> from normalised names to file lists, in insertion order: a new key goes to
  the end, a file is pushed on the list of its key.
\<close>

fun addToGroup :: "(string \<times> string list) list \<Rightarrow> string \<Rightarrow> string \<Rightarrow> (string \<times> string list) list" where
  "addToGroup [] normalized file = [(normalized, [file])]"
| "addToGroup ((k, files) # groups) normalized file =
     (if k = normalized then (k, files @ [file]) # groups
      else (k, files) # addToGroup groups normalized file)"

definition groupFiles :: "string list \<Rightarrow> (string \<times> string list) list" where
  "groupFiles mdFiles =
     foldl (\<lambda>groups file. addToGroup groups (normalizeFileName file) file) [] mdFiles"

definition statFile :: "fsFaults \<Rightarrow> (string \<times> int) list \<Rightarrow> string \<Rightarrow> jsError + int" where
  "statFile faults files file =
     (case statError faults file of
        Some e \<Rightarrow> Inl e
      | None \<Rightarrow>
          (case map_of files file of
             None \<Rightarrow> Inl (Error (''ENOENT: no such file or directory, stat '' @ file))
           | Some birthtime \<Rightarrow> Inr birthtime))"

text \<open>\<open>Promise.all\<close> over the \<open>stat\<close> calls: all the results, or the first error.\<close>

fun statAll :: "fsFaults \<Rightarrow> (string \<times> int) list \<Rightarrow> string list \<Rightarrow> jsError + (string \<times> int) list" where
  "statAll faults files [] = Inr []"
| "statAll faults files (file # rest) =
     (case statFile faults files file of
        Inl e \<Rightarrow> Inl e
      | Inr birthtime \<Rightarrow>
          (case statAll faults files rest of
             Inl e \<Rightarrow> Inl e
           | Inr withStats \<Rightarrow> Inr ((file, birthtime) # withStats)))"

text \<open>\<open>Array.prototype.sort\<close> is stable, and so is \<open>sort_key\<close>.\<close>

definition sortFilesByAge :: "fsFaults \<Rightarrow> (string \<times> int) list \<Rightarrow> string list \<Rightarrow> jsError + string list" where
  "sortFilesByAge faults files fileGroup =
     (case statAll faults files fileGroup of
        Inl e \<Rightarrow> Inl e
      | Inr withStats \<Rightarrow> Inr (map fst (sort_key snd withStats)))"

definition unlinkFile :: "fsFaults \<Rightarrow> (string \<times> int) list \<Rightarrow> string \<Rightarrow> jsError + (string \<times> int) list" where
  "unlinkFile faults files file =
     (case unlinkError faults file of
        Some e \<Rightarrow> Inl e
      | None \<Rightarrow>
          if file \<in> fst ` set files then Inr (filter (\<lambda>(name, birthtime). name \<noteq> file) files)
          else Inl (Error (''ENOENT: no such file or directory, unlink '' @ file)))"

text \<open>
  The loop \<open>for (let i = 1; i < sorted.length; i++)\<close>, over the sorted list without its first
  element. A thrown error leaves the loop; the directory keeps what was done before.
\<close>

fun deleteDuplicates :: "fsFaults \<Rightarrow> string list \<Rightarrow> outputDir \<Rightarrow> outputDir \<times> jsError option" where
  "deleteDuplicates faults [] d = (d, None)"
| "deleteDuplicates faults (file # rest) d =
     (case unlinkFile faults (dirFiles d) file of
        Inl e \<Rightarrow> (d, Some e)
      | Inr files' \<Rightarrow>
          deleteDuplicates faults rest
            (d\<lparr> dirFiles := files',
                dirLog := dirLog d @ [LogInfo (''Deleted duplicate file: '' @ file)] \<rparr>))"

text \<open>The loop over the groups.\<close>

fun processGroups :: "fsFaults \<Rightarrow> (string \<times> string list) list \<Rightarrow> outputDir \<Rightarrow> outputDir \<times> jsError option" where
  "processGroups faults [] d = (d, None)"
| "processGroups faults ((normName, fileGroup) # groups) d =
     (if length fileGroup > 1 then
        (case sortFilesByAge faults (dirFiles d) fileGroup of
           Inl e \<Rightarrow> (d, Some e)
         | Inr sortedFiles \<Rightarrow>
             (case deleteDuplicates faults (drop 1 sortedFiles) d of
                (d', Some e) \<Rightarrow> (d', Some e)
              | (d', None) \<Rightarrow> processGroups faults groups d'))
      else processGroups faults groups d)"

text \<open>
  \<open>cleanDuplicateFiles\<close>: the whole body is inside one \<open>try\<close>; the \<open>catch\<close> logs the
  error and the function returns.
\<close>

definition cleanDuplicateFiles :: "fsFaults \<Rightarrow> outputDir \<Rightarrow> outputDir" where
  "cleanDuplicateFiles faults d =
     (case readdirError faults of
        Some e \<Rightarrow> d\<lparr> dirLog := dirLog d @ [LogError (''Failed to clean duplicates: '' @ errorString e)] \<rparr>
      | None \<Rightarrow>
          (let files = map fst (dirFiles d);
               mdFiles = filter (\<lambda>f. endsWith f ''.md'') files;
               groups = groupFiles mdFiles
           in case processGroups faults groups d of
                (d', Some e) \<Rightarrow>
                  d'\<lparr> dirLog := dirLog d' @ [LogError (''Failed to clean duplicates: '' @ errorString e)] \<rparr>
              | (d', None) \<Rightarrow> d'))"

text \<open>
  Notions used to state what the reconciler leaves: the first of the entries with the
  least creation time, and the files the reconciler sets out to delete, in the order in
  which it reaches them.
\<close>

fun earliest :: "(string \<times> int) list \<Rightarrow> string \<times> int" where
  "earliest [] = ([], 0)"
| "earliest [x] = x"
| "earliest (x # y # ys) = (let m = earliest (y # ys) in if snd x \<le> snd m then x else m)"

definition sameGroup :: "string \<Rightarrow> string \<times> int \<Rightarrow> bool" where
  "sameGroup k = (\<lambda>(name, birthtime). endsWith name ''.md'' \<and> normalizeFileName name = k)"

definition sortedNames :: "(string \<times> int) list \<Rightarrow> string list \<Rightarrow> string list" where
  "sortedNames files fileGroup =
     map fst (sort_key snd (map (\<lambda>f. (f, the (map_of files f))) fileGroup))"

definition deletionSchedule :: "(string \<times> int) list \<Rightarrow> string list" where
  "deletionSchedule files =
     concat (map (\<lambda>(normName, fileGroup).
                    if length fileGroup > 1 then drop 1 (sortedNames files fileGroup) else [])
               (groupFiles (filter (\<lambda>f. endsWith f ''.md'') (map fst files))))"

text \<open>
  Auxiliary notions for the proofs about the reconciler: a file whose \<open>unlink\<close> does not
  throw, the log of a list of deletions, the error of the first deletion that throws, a
  directory without some names, the deletion schedule of given groups, the relation between
  the \<open>Map\<close> of groups and the files grouped, and the markdown files of a directory.
  \<open>vanishedA\<close> and \<open>fiveFiles\<close> are an example: a directory with two groups of
  duplicates, and a file system in which \<open>A.md\<close> cannot be deleted.
\<close>

definition unlinkOk :: "fsFaults \<Rightarrow> string \<Rightarrow> bool" where
  "unlinkOk faults f \<longleftrightarrow> unlinkError faults f = None"

definition deletedLog :: "string list \<Rightarrow> logEntry list" where
  "deletedLog fs = map (\<lambda>f. LogInfo (''Deleted duplicate file: '' @ f)) fs"

definition firstFailure :: "fsFaults \<Rightarrow> string list \<Rightarrow> jsError option" where
  "firstFailure faults fs =
     (case dropWhile (unlinkOk faults) fs of [] \<Rightarrow> None | f # rest \<Rightarrow> unlinkError faults f)"

definition removeNames :: "string list \<Rightarrow> (string \<times> int) list \<Rightarrow> (string \<times> int) list" where
  "removeNames fs files = filter (\<lambda>(name, birthtime). name \<notin> set fs) files"

definition scheduleOf :: "(string \<times> int) list \<Rightarrow> (string \<times> string list) list \<Rightarrow> string list" where
  "scheduleOf files groups =
     concat (map (\<lambda>(normName, fileGroup).
                    if length fileGroup > 1 then drop 1 (sortedNames files fileGroup) else [])
               groups)"

definition groupsOf :: "(string \<times> string list) list \<Rightarrow> string list \<Rightarrow> bool" where
  "groupsOf groups xs \<longleftrightarrow>
     distinct (map fst groups)
     \<and> (\<forall>(k, g) \<in> set groups. g \<noteq> [] \<and> g = filter (\<lambda>f. normalizeFileName f = k) xs)
     \<and> (\<forall>x \<in> set xs. normalizeFileName x \<in> fst ` set groups)"

definition mdNames :: "(string \<times> int) list \<Rightarrow> string list" where
  "mdNames files = filter (\<lambda>f. endsWith f ''.md'') (map fst files)"

definition vanishedA :: fsFaults where
  "vanishedA = noFaults\<lparr> unlinkError :=
        (\<lambda>f. if f = ''A.md'' then Some (Error ''ENOENT: no such file or directory'') else None) \<rparr>"

definition fiveFiles :: outputDir where
  "fiveFiles = \<lparr> dirFiles = [(''a.md'', 1), (''A.md'', 2), (''a-.md'', 3), (''b.md'', 1), (''B.md'', 2)],
         dirLog = [] \<rparr>"

section \<open>Paths (path.join on a POSIX system)\<close>

text \<open>
  The paths of \<open>backlinks.ts\<close> are made by \<open>path.join\<close> from the working directory of the
  process, which is an absolute path: the arguments are joined with \<open>/\<close> and the result is
  normalised. The normalisation cuts the path at every \<open>/\<close> and reads the segments from left
  to right: an empty segment and \<open>.\<close> are dropped, \<open>..\<close> removes the segment before it (and
  is dropped at the root), any other segment is kept. No path made here ends with \<open>/\<close>,
  since the last argument is \<open>backlinks\<close> or ends with \<open>.md\<close>.
\<close>

fun splitSlash :: "string \<Rightarrow> string \<Rightarrow> string list" where
  "splitSlash cur [] = [cur]"
| "splitSlash cur (c # cs) =
     (if c = CHR ''/'' then cur # splitSlash [] cs else splitSlash (cur @ [c]) cs)"

fun normalizeSegments :: "string list \<Rightarrow> string list \<Rightarrow> string list" where
  "normalizeSegments res [] = res"
| "normalizeSegments res (seg # segs) =
     (if seg = [] \<or> seg = ''.'' then normalizeSegments res segs
      else if seg = ''..'' then normalizeSegments (butlast res) segs
      else normalizeSegments (res @ [seg]) segs)"

text \<open>The segments of an absolute path after normalisation, and the path of given segments.\<close>

definition pathSegments :: "string \<Rightarrow> string list" where
  "pathSegments p = normalizeSegments [] (splitSlash [] p)"

definition renderPath :: "string list \<Rightarrow> string" where
  "renderPath segs = (if segs = [] then ''/'' else concat (map (\<lambda>seg. CHR ''/'' # seg) segs))"

text \<open>\<open>path.join(dir, name)\<close> for an absolute \<open>dir\<close> and a non-empty \<open>name\<close>.\<close>

definition pathJoin :: "string \<Rightarrow> string \<Rightarrow> string" where
  "pathJoin dir name = renderPath (pathSegments (dir @ ''/'' @ name))"

text \<open>
  The directory that holds a path, and the directories from the root down to a path, the
  path included.
\<close>

definition parentDir :: "string \<Rightarrow> string" where
  "parentDir p = renderPath (butlast (pathSegments p))"

definition ancestors :: "string \<Rightarrow> string list" where
  "ancestors p = map (\<lambda>n. renderPath (take n (pathSegments p))) [0..<Suc (length (pathSegments p))]"

section \<open>Backlinks (backlinks.ts)\<close>

text \<open>
  The part of the file system that \<open>backlinks.ts\<close> works on: the directories that exist,
  the content of each regular file, both by absolute path, and the log (the messages
  without the directory path and the error object that the source appends). The file
  system tells upper from lower case in names.
\<close>

record backlinkStore =
  blDirs :: "string set"
  blFiles :: "string \<rightharpoonup> string"
  blLog :: "logEntry list"

text \<open>\<open>const BACKLINKS_DIR = path.join(process.cwd(), 'backlinks')\<close>.\<close>

definition BACKLINKS_DIR :: "string \<Rightarrow> string" where
  "BACKLINKS_DIR cwd = pathJoin cwd ''backlinks''"

text \<open>
  \<open>fs.mkdir(dir, { recursive: true })\<close>: the directory and the missing ones above it are
  created. The call throws when the environment makes it fail, when the path holds a NUL
  character, and when the path or a path above it is a regular file. The message of an
  error of the file system is cut down to its code.
\<close>

definition mkdirRecursive :: "fsFaults \<Rightarrow> string \<Rightarrow> backlinkStore \<Rightarrow> jsError + backlinkStore" where
  "mkdirRecursive faults dir st =
     (case mkdirError faults of
        Some e \<Rightarrow> Inl e
      | None \<Rightarrow>
          if CHR 0x00 \<in> set dir then Inl (Error ''ERR_INVALID_ARG_VALUE'')
          else if list_ex (\<lambda>p. blFiles st p \<noteq> None) (ancestors dir) then Inl (Error ''EEXIST'')
          else Inr (st\<lparr> blDirs := blDirs st \<union> set (ancestors dir) \<rparr>))"

definition ensureBacklinksDir :: "string \<Rightarrow> fsFaults \<Rightarrow> backlinkStore \<Rightarrow> backlinkStore \<times> jsError option" where
  "ensureBacklinksDir cwd faults st =
     (case mkdirRecursive faults (BACKLINKS_DIR cwd) st of
        Inr st' \<Rightarrow>
          (st'\<lparr> blLog := blLog st' @ [LogInfo ''Backlinks directory initialized''] \<rparr>, None)
      | Inl (Error msg) \<Rightarrow>
          (st\<lparr> blLog := blLog st @ [LogError ''Failed to create backlinks directory:''] \<rparr>,
           Some (Error msg)))"

text \<open>
  The error that \<open>fs.writeFile\<close> and \<open>fs.appendFile\<close> throw for a path, if they throw:
  a failure made by the environment (no permission, a full disk, a name the file system
  finds too long), a NUL character in the path, a path that is a directory, a path whose
  directory does not exist.
\<close>

definition writeFails :: "fsFaults \<Rightarrow> backlinkStore \<Rightarrow> string \<Rightarrow> jsError option" where
  "writeFails faults st p =
     (case writeError faults p of
        Some e \<Rightarrow> Some e
      | None \<Rightarrow>
          if CHR 0x00 \<in> set p then Some (Error ''ERR_INVALID_ARG_VALUE'')
          else if p \<in> blDirs st then Some (Error ''EISDIR'')
          else if parentDir p \<notin> blDirs st then Some (Error ''ENOENT'')
          else None)"

text \<open>\<open>s.includes(sub)\<close>.\<close>

fun includesStr :: "string \<Rightarrow> string \<Rightarrow> bool" where
  "includesStr [] sub = (sub = [])"
| "includesStr (c # cs) sub = (take (length sub) (c # cs) = sub \<or> includesStr cs sub)"

text \<open>The maximal runs of word characters, in order; \<open>cur\<close> is the run being read.\<close>

fun wordRuns :: "string \<Rightarrow> string \<Rightarrow> string list" where
  "wordRuns cur [] = (if cur = [] then [] else [cur])"
| "wordRuns cur (c # cs) =
     (if isWordChar c then wordRuns (cur @ [c]) cs
      else (if cur = [] then [] else [cur]) @ wordRuns [] cs)"

text \<open>
  \<open>content.match(/\b\w{4,}\b/g) || []\<close>: between two word boundaries the greedy
  \<open>\w{4,}\<close> can only match a whole run of word characters.
\<close>

definition matchWords :: "string \<Rightarrow> string list" where
  "matchWords content = filter (\<lambda>w. length w \<ge> 4) (wordRuns [] content)"

definition commonWords :: "string list" where
  "commonWords = [''the'', ''and'', ''for'', ''with'', ''this'', ''that'', ''your'', ''have'',
     ''from'', ''about'', ''when'', ''where'', ''how'', ''why'', ''which'', ''their'', ''there'',
     ''been'', ''into'', ''only'', ''more'', ''some'', ''such'', ''than'', ''then'', ''them'',
     ''were'', ''what'', ''will'', ''would'', ''does'', ''said'', ''like'', ''just'', ''also'',
     ''very'', ''much'', ''many'', ''most'', ''more'', ''less'', ''same'', ''other'', ''another'',
     ''first'', ''last'', ''next'', ''previous'', ''new'', ''old'', ''good'', ''bad'', ''big'',
     ''small'', ''long'', ''short'', ''high'', ''low'', ''great'', ''little'', ''few'',
     ''several'', ''own'', ''same'', ''different'', ''same'', ''number'']"

text \<open>The test \<open>/^(the|and|...|number|\d+)$/i\<close> on a word.\<close>

definition isCommonWord :: "string \<Rightarrow> bool" where
  "isCommonWord word \<longleftrightarrow>
     toLowerCase word \<in> set commonWords \<or> (word \<noteq> [] \<and> list_all isDigit word)"

text \<open>\<open>keywords.add(...)\<close> on a \<open>Set\<close>, which keeps the order of insertion.\<close>

definition setAdd :: "string list \<Rightarrow> string \<Rightarrow> string list" where
  "setAdd keywords word = (if word \<in> set keywords then keywords else keywords @ [word])"

definition extractKeywords :: "string \<Rightarrow> string list" where
  "extractKeywords content =
     foldl (\<lambda>keywords word.
              if \<not> isCommonWord word then setAdd keywords (toLowerCase word) else keywords)
       [] (matchWords content)"

text \<open>
  \<open>content.replace(new RegExp(`\\b${keyword}\\b`, 'gi'), `[[${keyword}]]`)\<close> for a keyword
  made of word characters: a match is a whole run of word characters that is the keyword up
  to case.
\<close>

definition linkRun :: "string \<Rightarrow> string \<Rightarrow> string" where
  "linkRun keyword run =
     (if run \<noteq> [] \<and> toLowerCase run = keyword then ''[['' @ keyword @ '']]'' else run)"

fun replaceWord :: "string \<Rightarrow> string \<Rightarrow> string \<Rightarrow> string" where
  "replaceWord keyword cur [] = linkRun keyword cur"
| "replaceWord keyword cur (c # cs) =
     (if isWordChar c then replaceWord keyword (cur @ [c]) cs
      else linkRun keyword cur @ c # replaceWord keyword [] cs)"

text \<open>\<open>/\[\[([^\]]+)\]\]/\<close> at the start of \<open>s\<close>.\<close>

definition matchLink :: "string \<Rightarrow> (string \<times> string) option" where
  "matchLink s =
     (if take 2 s = ''[['' then
        (let link = takeWhile (\<lambda>c. c \<noteq> CHR '']'') (drop 2 s);
             rest = dropWhile (\<lambda>c. c \<noteq> CHR '']'') (drop 2 s)
         in if link \<noteq> [] \<and> take 2 rest = '']]''
            then Some (''[['' @ link @ '']]'', link) else None)
      else None)"

text \<open>\<open>[...processedContent.matchAll(linkRegex)].map(match => match[1])\<close>.\<close>

definition extractLinks :: "string \<Rightarrow> string list" where
  "extractLinks processedContent = hitKeywords (scanRegex matchLink processedContent)"

definition headerOf :: "string \<Rightarrow> string" where
  "headerOf keyword = ''# '' @ keyword"

definition referenceLine :: "string \<Rightarrow> string" where
  "referenceLine title = ''[['' @ title @ '']]'' @ [CHR 0x0A]"

text \<open>
  The body of both loops over the backlink files: read the file (an absent file reads as
  the empty string), then write the header and a first reference line, or append a
  reference line. An error of the write is logged and thrown again.
\<close>

definition writeBacklink :: "string \<Rightarrow> fsFaults \<Rightarrow> string \<Rightarrow> string \<Rightarrow> backlinkStore \<Rightarrow> backlinkStore \<times> jsError option" where
  "writeBacklink cwd faults title keyword st =
     (let keywordPath = pathJoin (BACKLINKS_DIR cwd) (keyword @ ''.md'');
          existingContent = (case blFiles st keywordPath of None \<Rightarrow> [] | Some existing \<Rightarrow> existing)
      in case writeFails faults st keywordPath of
           Some (Error msg) \<Rightarrow>
             (st\<lparr> blLog := blLog st @ [LogError (''Failed to create backlink for '' @ keyword @ '':'')] \<rparr>,
              Some (Error msg))
         | None \<Rightarrow>
             if \<not> includesStr existingContent (headerOf keyword) then
               (st\<lparr> blFiles := (blFiles st)(keywordPath \<mapsto>
                    headerOf keyword @ [CHR 0x0A, CHR 0x0A] @ referenceLine title) \<rparr>, None)
             else
               (st\<lparr> blFiles := (blFiles st)(keywordPath \<mapsto>
                    existingContent @ referenceLine title) \<rparr>, None))"

text \<open>A loop \<open>for (const keyword of ...)\<close> over that body; a thrown error leaves it.\<close>

fun writeBacklinks :: "string \<Rightarrow> fsFaults \<Rightarrow> string \<Rightarrow> string list \<Rightarrow> backlinkStore \<Rightarrow> backlinkStore \<times> jsError option" where
  "writeBacklinks cwd faults title [] st = (st, None)"
| "writeBacklinks cwd faults title (keyword # rest) st =
     (case writeBacklink cwd faults title keyword st of
        (st', Some e) \<Rightarrow> (st', Some e)
      | (st', None) \<Rightarrow> writeBacklinks cwd faults title rest st')"

definition createBacklinks :: "string \<Rightarrow> fsFaults \<Rightarrow> string \<Rightarrow> string \<Rightarrow> backlinkStore \<Rightarrow> backlinkStore \<times> (jsError + string)" where
  "createBacklinks cwd faults title content st =
     (case ensureBacklinksDir cwd faults st of
        (st0, Some e) \<Rightarrow> (st0, Inl e)
      | (st0, None) \<Rightarrow>
          (let keywords = extractKeywords content;
               processedContent = foldl (\<lambda>processed keyword. replaceWord keyword [] processed) content keywords
           in case writeBacklinks cwd faults title keywords st0 of
                (st1, Some e) \<Rightarrow> (st1, Inl e)
              | (st1, None) \<Rightarrow>
                  (case writeBacklinks cwd faults title (extractLinks processedContent) st1 of
                     (st2, Some e) \<Rightarrow> (st2, Inl e)
                   | (st2, None) \<Rightarrow> (st2, Inr processedContent))))"

text \<open>
  A sequence of calls of \<open>createBacklinks\<close>, each with its title and content; a call that
  throws does not stop the calls after it.
\<close>

fun createBacklinksRun :: "string \<Rightarrow> fsFaults \<Rightarrow> (string \<times> string) list \<Rightarrow> backlinkStore \<Rightarrow> backlinkStore" where
  "createBacklinksRun cwd faults [] st = st"
| "createBacklinksRun cwd faults ((title, content) # calls) st =
     createBacklinksRun cwd faults calls (fst (createBacklinks cwd faults title content st))"

text \<open>The lines of a text, and the number of its lines that are the header of a keyword.\<close>

fun linesOf :: "string \<Rightarrow> string \<Rightarrow> string list" where
  "linesOf cur [] = [cur]"
| "linesOf cur (c # cs) = (if c = CHR 0x0A then cur # linesOf [] cs else linesOf (cur @ [c]) cs)"

definition headerCount :: "string \<Rightarrow> string \<Rightarrow> nat" where
  "headerCount keyword fileText =
     length (filter (\<lambda>l. l = headerOf keyword) (linesOf [] fileText))"

text \<open>
  Notions used to state what the backlink files hold. The path of the file of a keyword.
  The content the calls work on after the keywords have been linked, and the keywords a
  call makes a write step for, in the order of the steps: the keywords it extracts, then
  the links of the processed content. The file of a keyword with the reference lines of
  given titles. The titles of the reference lines that a sequence of calls adds to the file
  of a keyword: for each call in order, its title once for every write step of the call
  for that keyword. The store in which the file of a keyword, if there is one, has that
  form with titles from a given set. The file system before the first call.
\<close>

definition backlinkPath :: "string \<Rightarrow> string \<Rightarrow> string" where
  "backlinkPath cwd keyword = pathJoin (BACKLINKS_DIR cwd) (keyword @ ''.md'')"

definition processContent :: "string \<Rightarrow> string" where
  "processContent content =
     foldl (\<lambda>processed keyword. replaceWord keyword [] processed) content (extractKeywords content)"

definition writeSteps :: "string \<Rightarrow> string list" where
  "writeSteps content = extractKeywords content @ extractLinks (processContent content)"

definition fileOf :: "string \<Rightarrow> string list \<Rightarrow> string" where
  "fileOf keyword titles =
     headerOf keyword @ [CHR 0x0A, CHR 0x0A] @ concat (map referenceLine titles)"

definition referenceTitles :: "(string \<times> string) list \<Rightarrow> string \<Rightarrow> string list" where
  "referenceTitles calls keyword =
     concat (map (\<lambda>(title, content). replicate (count_list (writeSteps content) keyword) title) calls)"

definition wellFormed :: "string \<Rightarrow> string \<Rightarrow> string set \<Rightarrow> backlinkStore \<Rightarrow> bool" where
  "wellFormed cwd keyword allowed st \<longleftrightarrow>
     (\<forall>existing. blFiles st (backlinkPath cwd keyword) = Some existing \<longrightarrow>
        (\<exists>titles. titles \<noteq> [] \<and> set titles \<subseteq> allowed \<and> existing = fileOf keyword titles))"

definition emptyStore :: backlinkStore where
  "emptyStore = \<lparr> blDirs = {}, blFiles = Map.empty, blLog = [] \<rparr>"

text \<open>
  Two notions used in the proofs: the segments of the backlinks directory, and the store
  that holds, for every keyword without \<open>/\<close>, the file with the reference lines of the
  titles \<open>f\<close> gives it (no file when there is none), in which no directory exists but the
  backlinks directory and those above it, and in which no file is in their place.
\<close>

definition dirSegments :: "string \<Rightarrow> string list" where
  "dirSegments cwd = pathSegments (cwd @ ''/'' @ ''backlinks'')"

definition tracked :: "string \<Rightarrow> (string \<Rightarrow> string list) \<Rightarrow> backlinkStore \<Rightarrow> bool" where
  "tracked cwd f st \<longleftrightarrow>
     (\<forall>keyword. CHR ''/'' \<notin> set keyword \<longrightarrow>
        blFiles st (backlinkPath cwd keyword)
          = (if f keyword = [] then None else Some (fileOf keyword (f keyword))))
     \<and> blDirs st \<subseteq> set (ancestors (BACKLINKS_DIR cwd))
     \<and> (\<forall>p \<in> set (ancestors (BACKLINKS_DIR cwd)). blFiles st p = None)"

section \<open>Normalisation: suffix rules\<close>

lemma endsWith_append [simp]: "endsWith (stem @ suffix) suffix"
  by (simp add: endsWith_def)

lemma endsWith_suffix_of_suffix:
  "endsWith s (a @ b) \<Longrightarrow> endsWith s b"
proof -
  assume h: "endsWith s (a @ b)"
  then have "s = take (length s - length (a @ b)) s @ a @ b"
    unfolding endsWith_def by (metis append_take_drop_id)
  then have "s = (take (length s - length (a @ b)) s @ a) @ b" by simp
  then show ?thesis by (metis endsWith_append)
qed

text \<open>What the three tests of \<open>normalizeKeyword\<close> amount to.\<close>

lemma normalizeKeyword_cases:
  "normalizeKeyword keyword =
     (if endsWith keyword ''es'' then sliceEnd keyword 2
      else if endsWith keyword ''s'' \<and> length keyword > 1 then sliceEnd keyword 1
      else keyword)"
proof (cases "endsWith keyword ''es''")
  case True
  then have "endsWith keyword ''s''"
    using endsWith_suffix_of_suffix [of keyword "''e''" "''s''"] by simp
  moreover have "length keyword > 1" using True by (simp add: endsWith_def)
  ultimately show ?thesis using True by (simp add: normalizeKeyword_def)
next
  case False
  have "\<not> endsWith keyword ''ies''"
    using False endsWith_suffix_of_suffix [of keyword "''i''" "''es''"] by auto
  then show ?thesis using False by (simp add: normalizeKeyword_def Let_def)
qed

text \<open>
  C6. The claim says a keyword ending in "ies" maps to its stem plus "y". In the code the
  test for "es" comes before the test for "ies", so every keyword ending in "ies" takes the
  "es" branch: "studies" becomes "studi", and the "ies" branch is never reached.
\<close>

theorem normalizeKeyword_ies_drops_two:
  "normalizeKeyword ''studies'' = ''studi''
   \<and> normalizeKeyword ''studies'' \<noteq> ''study''
   \<and> (\<forall>stem. normalizeKeyword (stem @ ''ies'') = stem @ ''i'')"
proof -
  have general: "normalizeKeyword (stem @ ''ies'') = stem @ ''i''" for stem
  proof -
    have e1: "endsWith (stem @ ''ies'') ''s''"
      using endsWith_append [of "stem @ ''ie''" "''s''"] by simp
    have e2: "endsWith (stem @ ''ies'') ''es''"
      using endsWith_append [of "stem @ ''i''" "''es''"] by simp
    show ?thesis
      using e1 e2 by (simp add: normalizeKeyword_def sliceEnd_def)
  qed
  have "normalizeKeyword ''studies'' = ''studi''"
    using general [of "''stud''"] by simp
  then show ?thesis using general by simp
qed

section \<open>Chunk orchestration: order and fallback\<close>

lemma processChunks_acc:
  "processChunks provider chunks acc st =
     (acc @ fst (processChunks provider chunks [] st), snd (processChunks provider chunks [] st))"
proof (induction chunks arbitrary: acc st)
  case Nil
  then show ?case by simp
next
  case (Cons chunk chunks)
  show ?case
  proof (cases "provider chunk st")
    case (Pair r st')
    show ?thesis
    proof (cases r)
      case (Inl e)
      with Pair show ?thesis
        using Cons.IH [of "acc @ [Str chunk]" st'] Cons.IH [of "[Str chunk]" st'] by simp
    next
      case (Inr p)
      with Pair show ?thesis
        using Cons.IH [of "acc @ [p]" st'] Cons.IH [of "[p]" st'] by simp
    qed
  qed
qed

lemma callOutcome_Cons_Suc:
  "callOutcome provider st (chunk # chunks) (Suc j) =
     callOutcome provider (snd (provider chunk st)) chunks j"
  by (simp add: callOutcome_def stateAfter_def)

lemma chunkResult_Cons_Suc:
  "chunkResult provider st (chunk # chunks) (Suc j) =
     chunkResult provider (snd (provider chunk st)) chunks j"
  by (simp add: chunkResult_def callOutcome_Cons_Suc split: sum.splits)

lemma processChunks_results:
  "processChunks provider chunks [] st =
     (map (chunkResult provider st chunks) [0..<length chunks], stateAfter provider st chunks)"
proof (induction chunks arbitrary: st)
  case Nil
  then show ?case by (simp add: stateAfter_def)
next
  case (Cons chunk chunks)
  obtain r st' where p: "provider chunk st = (r, st')" by (cases "provider chunk st")
  have shift: "map (chunkResult provider st (chunk # chunks)) [0..<length (chunk # chunks)] =
      chunkResult provider st (chunk # chunks) 0 # map (chunkResult provider st' chunks) [0..<length chunks]"
    using p by (simp add: upt_conv_Cons map_Suc_upt [symmetric] chunkResult_Cons_Suc del: upt_Suc)
  have st: "stateAfter provider st (chunk # chunks) = stateAfter provider st' chunks"
    using p by (simp add: stateAfter_def)
  have r0: "chunkResult provider st (chunk # chunks) 0 = (case r of Inr q \<Rightarrow> q | Inl e \<Rightarrow> Str chunk)"
    using p by (simp add: chunkResult_def callOutcome_def stateAfter_def split: sum.splits)
  show ?case
  proof (cases r)
    case (Inl e)
    then show ?thesis
      using p shift st r0 Cons.IH [of st'] processChunks_acc [of provider chunks "[Str chunk]" st']
      by simp
  next
    case (Inr q)
    then show ?thesis
      using p shift st r0 Cons.IH [of st'] processChunks_acc [of provider chunks "[q]" st']
      by simp
  qed
qed

lemma stateAfter_traced:
  "stateAfter (traced provider) (st, calls) chunks = (stateAfter provider st chunks, calls @ chunks)"
proof (induction chunks arbitrary: st calls)
  case Nil
  then show ?case by (simp add: stateAfter_def)
next
  case (Cons c cs)
  have "stateAfter (traced provider) (st, calls) (c # cs)
      = stateAfter (traced provider) (snd (provider c st), calls @ [c]) cs"
    by (simp add: stateAfter_def traced_def)
  then show ?case using Cons.IH [of "snd (provider c st)" "calls @ [c]"]
    by (simp add: stateAfter_def)
qed

lemma length_join:
  "length (join sep xs) = sum_list (map length xs) + (length xs - 1) * length sep"
  by (induction sep xs rule: join.induct) auto

lemma mergeChunks_results:
  "fst (mergeChunks provider chunks st) =
     join [CHR 0x0A, CHR 0x0A]
       (map (\<lambda>j. elementText (chunkResult provider st chunks j)) [0..<length chunks])"
  by (simp add: mergeChunks_def processChunks_results comp_def)

text \<open>
  C1 as stated: a call that fails with a malformed response falls back to the chunk. The
  loop falls back only when the call throws. A provider that resolves with \<open>undefined\<close>
  on a reply it cannot read has, for the loop, succeeded: the value is pushed, \<open>join\<close>
  gives it the empty string, and the text of the chunk is lost.
\<close>

theorem processChunks_malformed_counterexample:
  "fst (mergeChunks noContentBackend [''a'', ''b'', ''c''] 0)
     = ''[[a]]'' @ [CHR 0x0A, CHR 0x0A] @ [CHR 0x0A, CHR 0x0A] @ ''[[c]]''
   \<and> fst (mergeChunks noContentBackend [''a'', ''b'', ''c''] 0)
     \<noteq> ''[[a]]'' @ [CHR 0x0A, CHR 0x0A] @ ''b'' @ [CHR 0x0A, CHR 0x0A] @ ''[[c]]''"
  by (simp add: mergeChunks_def noContentBackend_def)

text \<open>
  C1, amended. The loop calls the backend on every chunk, in the original order (the
  backend state is threaded from one call to the next, and a backend that records its calls
  has recorded exactly the chunks, in order). The value recorded for a chunk is the value
  the call resolved with, and the chunk itself when the call threw, whatever the error; the
  loop always goes on to the next chunk. The merged text is the join, with two line feeds
  between consecutive ones, of the texts of the recorded values: the string itself for a
  string, the empty string for \<open>undefined\<close> and \<open>null\<close>. When the call for chunk \<open>i\<close> is the
  only one that throws, the merged text is the join of the texts of the resolved values
  with chunk \<open>i\<close> in place \<open>i\<close>; when the other calls resolve with strings, it is the join
  of these annotated texts with chunk \<open>i\<close> in place \<open>i\<close>. When the call for chunk \<open>i\<close>
  resolves with \<open>undefined\<close> or \<open>null\<close>, the empty string is in place \<open>i\<close>.
\<close>

theorem processChunks_fallback_in_order:
  "processChunks provider chunks [] st =
     (map (\<lambda>j. case callOutcome provider st chunks j of
                 Inr processed \<Rightarrow> processed | Inl err \<Rightarrow> Str (chunks ! j)) [0..<length chunks],
      stateAfter provider st chunks)
   \<and> snd (snd (processChunks (traced provider) chunks [] (st, calls))) = calls @ chunks
   \<and> fst (mergeChunks provider chunks st) =
       join [CHR 0x0A, CHR 0x0A] (map elementText (fst (processChunks provider chunks [] st)))
   \<and> (i < length chunks \<and> isl (callOutcome provider st chunks i)
        \<and> (\<forall>j < length chunks. j \<noteq> i \<longrightarrow>
               callOutcome provider st chunks j = Inr (Str (annotated j)))
      \<longrightarrow> fst (mergeChunks provider chunks st) =
            join [CHR 0x0A, CHR 0x0A] ((map annotated [0..<length chunks])[i := chunks ! i]))
   \<and> (i < length chunks \<and> isl (callOutcome provider st chunks i)
        \<and> (\<forall>j < length chunks. j \<noteq> i \<longrightarrow> \<not> isl (callOutcome provider st chunks j))
      \<longrightarrow> fst (mergeChunks provider chunks st) =
            join [CHR 0x0A, CHR 0x0A]
              ((map (\<lambda>j. elementText (projr (callOutcome provider st chunks j)))
                  [0..<length chunks])
                 [i := chunks ! i]))
   \<and> (i < length chunks
        \<and> (callOutcome provider st chunks i = Inr Undefined
            \<or> callOutcome provider st chunks i = Inr Null)
      \<longrightarrow> fst (mergeChunks provider chunks st) =
            join [CHR 0x0A, CHR 0x0A]
              ((map (\<lambda>j. case callOutcome provider st chunks j of
                           Inr processed \<Rightarrow> elementText processed | Inl err \<Rightarrow> chunks ! j)
                  [0..<length chunks])
                 [i := []]))"
proof -
  have a: "processChunks provider chunks [] st =
     (map (\<lambda>j. case callOutcome provider st chunks j of
                 Inr processed \<Rightarrow> processed | Inl err \<Rightarrow> Str (chunks ! j)) [0..<length chunks],
      stateAfter provider st chunks)"
    using processChunks_results [of provider chunks st]
    by (simp add: chunkResult_def [abs_def])
  have b: "snd (snd (processChunks (traced provider) chunks [] (st, calls))) = calls @ chunks"
    by (simp add: processChunks_results stateAfter_traced)
  have c: "fst (mergeChunks provider chunks st) =
       join [CHR 0x0A, CHR 0x0A] (map elementText (fst (processChunks provider chunks [] st)))"
    by (simp add: mergeChunks_def split: prod.splits)
  have d: "fst (mergeChunks provider chunks st) =
            join [CHR 0x0A, CHR 0x0A]
              ((map (\<lambda>j. elementText (projr (callOutcome provider st chunks j)))
                  [0..<length chunks])
                 [i := chunks ! i])"
    if h: "i < length chunks" "isl (callOutcome provider st chunks i)"
       "\<forall>j < length chunks. j \<noteq> i \<longrightarrow> \<not> isl (callOutcome provider st chunks j)"
  proof -
    have "map (\<lambda>j. elementText (chunkResult provider st chunks j)) [0..<length chunks]
        = (map (\<lambda>j. elementText (projr (callOutcome provider st chunks j)))
             [0..<length chunks])[i := chunks ! i]"
    proof (rule nth_equalityI)
      show "length (map (\<lambda>j. elementText (chunkResult provider st chunks j)) [0..<length chunks])
          = length ((map (\<lambda>j. elementText (projr (callOutcome provider st chunks j)))
             [0..<length chunks])[i := chunks ! i])"
        by simp
    next
      fix j
      assume "j < length (map (\<lambda>j. elementText (chunkResult provider st chunks j))
                  [0..<length chunks])"
      then have j: "j < length chunks" by simp
      show "map (\<lambda>j. elementText (chunkResult provider st chunks j)) [0..<length chunks] ! j
          = (map (\<lambda>j. elementText (projr (callOutcome provider st chunks j)))
               [0..<length chunks])[i := chunks ! i] ! j"
      proof (cases "j = i")
        case True
        then show ?thesis using h(1,2) by (auto simp: isl_def chunkResult_def)
      next
        case False
        then have "\<not> isl (callOutcome provider st chunks j)" using h(3) j by simp
        then show ?thesis using False j
          by (auto simp: isl_def chunkResult_def split: sum.splits)
      qed
    qed
    then show ?thesis by (simp only: mergeChunks_results)
  qed
  have f: "fst (mergeChunks provider chunks st) =
            join [CHR 0x0A, CHR 0x0A]
              ((map (\<lambda>j. case callOutcome provider st chunks j of
                           Inr processed \<Rightarrow> elementText processed | Inl err \<Rightarrow> chunks ! j)
                  [0..<length chunks])
                 [i := []])"
    if h: "i < length chunks"
       "callOutcome provider st chunks i = Inr Undefined
          \<or> callOutcome provider st chunks i = Inr Null"
  proof -
    have "map (\<lambda>j. elementText (chunkResult provider st chunks j)) [0..<length chunks]
        = (map (\<lambda>j. case callOutcome provider st chunks j of
                           Inr processed \<Rightarrow> elementText processed | Inl err \<Rightarrow> chunks ! j)
             [0..<length chunks])[i := []]"
    proof (rule nth_equalityI)
      show "length (map (\<lambda>j. elementText (chunkResult provider st chunks j)) [0..<length chunks])
          = length ((map (\<lambda>j. case callOutcome provider st chunks j of
                           Inr processed \<Rightarrow> elementText processed | Inl err \<Rightarrow> chunks ! j)
             [0..<length chunks])[i := []])"
        by simp
    next
      fix j
      assume "j < length (map (\<lambda>j. elementText (chunkResult provider st chunks j))
                  [0..<length chunks])"
      then have j: "j < length chunks" by simp
      show "map (\<lambda>j. elementText (chunkResult provider st chunks j)) [0..<length chunks] ! j
          = (map (\<lambda>j. case callOutcome provider st chunks j of
                           Inr processed \<Rightarrow> elementText processed | Inl err \<Rightarrow> chunks ! j)
               [0..<length chunks])[i := []] ! j"
      proof (cases "j = i")
        case True
        then show ?thesis using h by (auto simp: chunkResult_def)
      next
        case False
        then show ?thesis using j by (auto simp: chunkResult_def split: sum.splits)
      qed
    qed
    then show ?thesis by (simp only: mergeChunks_results)
  qed
  have e: "fst (mergeChunks provider chunks st) =
            join [CHR 0x0A, CHR 0x0A] ((map annotated [0..<length chunks])[i := chunks ! i])"
    if h: "i < length chunks" "isl (callOutcome provider st chunks i)"
       "\<forall>j < length chunks. j \<noteq> i \<longrightarrow>
               callOutcome provider st chunks j = Inr (Str (annotated j))"
  proof -
    have others: "\<forall>j < length chunks. j \<noteq> i \<longrightarrow> \<not> isl (callOutcome provider st chunks j)"
      using h(3) by simp
    have "(map (\<lambda>j. elementText (projr (callOutcome provider st chunks j)))
             [0..<length chunks])[i := chunks ! i]
        = (map annotated [0..<length chunks])[i := chunks ! i]"
    proof (rule nth_equalityI)
      show "length ((map (\<lambda>j. elementText (projr (callOutcome provider st chunks j)))
             [0..<length chunks])[i := chunks ! i])
          = length ((map annotated [0..<length chunks])[i := chunks ! i])"
        by simp
    next
      fix j
      assume "j < length ((map (\<lambda>j. elementText (projr (callOutcome provider st chunks j)))
             [0..<length chunks])[i := chunks ! i])"
      then have j: "j < length chunks" by simp
      show "(map (\<lambda>j. elementText (projr (callOutcome provider st chunks j)))
             [0..<length chunks])[i := chunks ! i] ! j
          = (map annotated [0..<length chunks])[i := chunks ! i] ! j"
      proof (cases "j = i")
        case True
        then show ?thesis using h(1) by simp
      next
        case False
        then have "callOutcome provider st chunks j = Inr (Str (annotated j))"
          using h(3) j by simp
        then show ?thesis using False j by simp
      qed
    qed
    then show ?thesis using d [OF h(1,2) others] by simp
  qed
  show ?thesis by (intro conjI impI) (use a b c d e f in blast)+
qed

theorem processChunks_fallback_in_order_witness:
  "(1::nat) < length [''a'', ''b'', ''c'']
   \<and> isl (callOutcome (\<lambda>chunk st. (if chunk = ''b'' then Inl (Error ''timeout'')
                                       else Inr (Str (''[['' @ chunk @ '']]'')), Suc st))
             (0::nat) [''a'', ''b'', ''c''] 1)
   \<and> callOutcome (\<lambda>chunk st. (if chunk = ''b'' then Inl (Error ''timeout'')
                                  else Inr (Str (''[['' @ chunk @ '']]'')), Suc st))
             (0::nat) [''a'', ''b'', ''c''] 0 = Inr (Str ''[[a]]'')
   \<and> callOutcome (\<lambda>chunk st. (if chunk = ''b'' then Inl (Error ''timeout'')
                                  else Inr (Str (''[['' @ chunk @ '']]'')), Suc st))
             (0::nat) [''a'', ''b'', ''c''] 2 = Inr (Str ''[[c]]'')
   \<and> fst (mergeChunks (\<lambda>chunk st. (if chunk = ''b'' then Inl (Error ''timeout'')
                                       else Inr (Str (''[['' @ chunk @ '']]'')), Suc st))
             [''a'', ''b'', ''c''] (0::nat))
       = ''[[a]]'' @ [CHR 0x0A, CHR 0x0A] @ ''b'' @ [CHR 0x0A, CHR 0x0A] @ ''[[c]]''
   \<and> isl (callOutcome (\<lambda>chunk st. (if chunk = ''b'' then Inl (Error ''timeout'')
                                       else Inr (Other ''5''), Suc st))
             (0::nat) [''a'', ''b'', ''c''] 1)
   \<and> fst (mergeChunks (\<lambda>chunk st. (if chunk = ''b'' then Inl (Error ''timeout'')
                                       else Inr (Other ''5''), Suc st))
             [''a'', ''b'', ''c''] (0::nat))
       = ''5'' @ [CHR 0x0A, CHR 0x0A] @ ''b'' @ [CHR 0x0A, CHR 0x0A] @ ''5''
   \<and> callOutcome (\<lambda>chunk st. (if chunk = ''b'' then Inr Null
                                  else Inr (Str (''[['' @ chunk @ '']]'')), Suc st))
             (0::nat) [''a'', ''b'', ''c''] 1 = Inr Null
   \<and> fst (mergeChunks (\<lambda>chunk st. (if chunk = ''b'' then Inr Null
                                       else Inr (Str (''[['' @ chunk @ '']]'')), Suc st))
             [''a'', ''b'', ''c''] (0::nat))
       = ''[[a]]'' @ [CHR 0x0A, CHR 0x0A] @ [CHR 0x0A, CHR 0x0A] @ ''[[c]]''"
proof -
  let ?p = "\<lambda>chunk st. (if chunk = ''b'' then Inl (Error ''timeout'')
                           else Inr (Str (''[['' @ chunk @ '']]'')), Suc st) :: (jsError + jsValue) \<times> nat"
  let ?r = "\<lambda>chunk st. (if chunk = ''b'' then Inl (Error ''timeout'')
                           else Inr (Other ''5''), Suc st) :: (jsError + jsValue) \<times> nat"
  let ?q = "\<lambda>chunk st. (if chunk = ''b'' then Inr Null
                           else Inr (Str (''[['' @ chunk @ '']]'')), Suc st) :: (jsError + jsValue) \<times> nat"
  let ?cs = "[''a'', ''b'', ''c'']"
  let ?an = "\<lambda>j. ''[['' @ ?cs ! j @ '']]''"
  have o0: "callOutcome ?p 0 ?cs 0 = Inr (Str ''[[a]]'')"
    by (simp add: callOutcome_def stateAfter_def)
  have o1: "callOutcome ?p 0 ?cs 1 = Inl (Error ''timeout'')"
    by (simp add: callOutcome_def stateAfter_def)
  have o2: "callOutcome ?p 0 ?cs 2 = Inr (Str ''[[c]]'')"
    by (simp add: callOutcome_def stateAfter_def)
  have r0: "callOutcome ?r 0 ?cs 0 = Inr (Other ''5'')"
    by (simp add: callOutcome_def stateAfter_def)
  have r1: "callOutcome ?r 0 ?cs 1 = Inl (Error ''timeout'')"
    by (simp add: callOutcome_def stateAfter_def)
  have r2: "callOutcome ?r 0 ?cs 2 = Inr (Other ''5'')"
    by (simp add: callOutcome_def stateAfter_def)
  have r2': "callOutcome ?r 0 ?cs (Suc (Suc 0)) = Inr (Other ''5'')"
    using r2 by (simp add: numeral_2_eq_2)
  have q0: "callOutcome ?q 0 ?cs 0 = Inr (Str ''[[a]]'')"
    by (simp add: callOutcome_def stateAfter_def)
  have q1: "callOutcome ?q 0 ?cs 1 = Inr Null"
    by (simp add: callOutcome_def stateAfter_def)
  have q2: "callOutcome ?q 0 ?cs 2 = Inr (Str ''[[c]]'')"
    by (simp add: callOutcome_def stateAfter_def)
  have q2': "callOutcome ?q 0 ?cs (Suc (Suc 0)) = Inr (Str ''[[c]]'')"
    using q2 by (simp add: numeral_2_eq_2)
  have h1: "(1::nat) < length ?cs" by simp
  have h2: "isl (callOutcome ?p 0 ?cs 1)" using o1 by simp
  have h3: "\<forall>j < length ?cs. j \<noteq> 1 \<longrightarrow> callOutcome ?p 0 ?cs j = Inr (Str (?an j))"
  proof (intro allI impI)
    fix j :: nat assume "j < length ?cs" "j \<noteq> 1"
    then have "j = 0 \<or> j = 2" by auto
    then show "callOutcome ?p 0 ?cs j = Inr (Str (?an j))" using o0 o2 by auto
  qed
  have g2: "isl (callOutcome ?r 0 ?cs 1)" using r1 by simp
  have g3: "\<forall>j < length ?cs. j \<noteq> 1 \<longrightarrow> \<not> isl (callOutcome ?r 0 ?cs j)"
  proof (intro allI impI)
    fix j :: nat assume "j < length ?cs" "j \<noteq> 1"
    then have "j = 0 \<or> j = 2" by auto
    then show "\<not> isl (callOutcome ?r 0 ?cs j)" using r0 r2 by auto
  qed
  have upt3: "[0..<length ?cs] = [0, 1, 2]" by (simp add: upt_rec)
  have "fst (mergeChunks ?p ?cs 0) =
      join [CHR 0x0A, CHR 0x0A] ((map ?an [0..<length ?cs])[1 := ?cs ! 1])"
    using processChunks_fallback_in_order [of ?p ?cs 0 "[]" 1 ?an] h1 h2 h3 by blast
  then have m1: "fst (mergeChunks ?p ?cs 0) =
      ''[[a]]'' @ [CHR 0x0A, CHR 0x0A] @ ''b'' @ [CHR 0x0A, CHR 0x0A] @ ''[[c]]''"
    using upt3 by simp
  have "fst (mergeChunks ?r ?cs 0) =
      join [CHR 0x0A, CHR 0x0A]
        ((map (\<lambda>j. elementText (projr (callOutcome ?r 0 ?cs j))) [0..<length ?cs])[1 := ?cs ! 1])"
    using processChunks_fallback_in_order [of ?r ?cs 0 "[]" 1 ?an] h1 g2 g3 by blast
  then have m3: "fst (mergeChunks ?r ?cs 0) =
      ''5'' @ [CHR 0x0A, CHR 0x0A] @ ''b'' @ [CHR 0x0A, CHR 0x0A] @ ''5''"
    using r0 r2' upt3 by simp
  have "fst (mergeChunks ?q ?cs 0) =
      join [CHR 0x0A, CHR 0x0A]
        ((map (\<lambda>j. case callOutcome ?q 0 ?cs j of
                     Inr processed \<Rightarrow> elementText processed | Inl err \<Rightarrow> ?cs ! j)
            [0..<length ?cs])[1 := []])"
    using processChunks_fallback_in_order [of ?q ?cs 0 "[]" 1 ?an] h1 q1 by blast
  then have m2: "fst (mergeChunks ?q ?cs 0) =
      ''[[a]]'' @ [CHR 0x0A, CHR 0x0A] @ [CHR 0x0A, CHR 0x0A] @ ''[[c]]''"
    using q0 q2' upt3 by simp
  show ?thesis by (intro conjI) (rule h1 h2 o0 o2 m1 g2 m3 q1 m2)+
qed

text \<open>
  C3. For a content of at most twice the chunk size, \<open>processMarkdown\<close> does not run the
  chunker: the list of chunks is the content alone, the backend is called once, with the
  whole content, and the text returned is the rule engine's output on that one result.
\<close>

theorem short_document_single_chunk:
  assumes "int (length content) \<le> 2 * chunkSize"
  shows "selectChunks content chunkSize = [content]
    \<and> processChunks provider (selectChunks content chunkSize) [] st =
         ([case fst (provider content st) of Inr processed \<Rightarrow> processed | Inl err \<Rightarrow> Str content],
          snd (provider content st))
    \<and> snd (snd (processChunks (traced provider) (selectChunks content chunkSize) [] (st, []))) =
         [content]
    \<and> processMarkdown provider content chunkSize st =
         (applyRules (case fst (provider content st) of
                        Inr processed \<Rightarrow> elementText processed | Inl err \<Rightarrow> content),
          snd (provider content st))"
proof -
  have sel: "selectChunks content chunkSize = [content]"
    using assms by (simp add: selectChunks_def)
  have pc: "processChunks provider [content] [] st =
         ([case fst (provider content st) of Inr processed \<Rightarrow> processed | Inl err \<Rightarrow> Str content],
          snd (provider content st))"
    by (cases "provider content st") (auto split: sum.splits)
  have tr: "snd (snd (processChunks (traced provider) [content] [] (st, []))) = [content]"
    by (cases "provider content st") (auto simp: traced_def split: sum.splits)
  have pm: "processMarkdown provider content chunkSize st =
         (applyRules (case fst (provider content st) of
                        Inr processed \<Rightarrow> elementText processed | Inl err \<Rightarrow> content),
          snd (provider content st))"
    unfolding processMarkdown_def mergeChunks_def sel Let_def pc
    by (simp split: sum.splits)
  show ?thesis using sel pc tr pm by simp
qed

theorem short_document_single_chunk_witness:
  "int (length [CHR 0x0A, CHR 0x0A]) \<le> 2 * 3000
   \<and> splitMarkdown [CHR 0x0A, CHR 0x0A] 3000 = []
   \<and> selectChunks [CHR 0x0A, CHR 0x0A] 3000 = [[CHR 0x0A, CHR 0x0A]]
   \<and> snd (snd (processChunks (traced (\<lambda>chunk st. (Inr (Str (''[[x]]'' @ chunk)), st)))
                  (selectChunks [CHR 0x0A, CHR 0x0A] 3000) [] ((), []))) = [[CHR 0x0A, CHR 0x0A]]"
proof -
  have h: "int (length [CHR 0x0A, CHR 0x0A]) \<le> 2 * 3000" by simp
  have s: "splitMarkdown [CHR 0x0A, CHR 0x0A] 3000 = []"
    by (simp add: splitMarkdown_def isSpace_def trim_def)
  show ?thesis
    using short_document_single_chunk [OF h, of "\<lambda>chunk st. (Inr (Str (''[[x]]'' @ chunk)), st)" "()"] h s
    by blast
qed

section \<open>Duplicate suppression\<close>

lemma matchMarkup_Some:
  assumes "matchMarkup s = Some (mt, keyword)"
  shows "mt = ''[['' @ keyword @ '']]''" "keyword \<noteq> []" "list_all notBracket keyword"
    "take (length mt) s = mt"
proof -
  from assms have t2: "take 2 s = ''[[''"
    by (auto simp: matchMarkup_def Let_def split: if_splits)
  from assms have kw: "keyword = takeWhile notBracket (drop 2 s)"
    and ne: "keyword \<noteq> []"
    and r2: "take 2 (dropWhile notBracket (drop 2 s)) = '']]''"
    and mt: "mt = ''[['' @ keyword @ '']]''"
    by (auto simp: matchMarkup_def Let_def split: if_splits)
  show "mt = ''[['' @ keyword @ '']]''" by (rule mt)
  show "keyword \<noteq> []" by (rule ne)
  show "list_all notBracket keyword"
    unfolding kw list_all_iff by (auto dest: set_takeWhileD)
  have s: "s = take 2 s @ drop 2 s" by simp
  have d: "drop 2 s = keyword @ dropWhile notBracket (drop 2 s)"
    unfolding kw by simp
  have r: "dropWhile notBracket (drop 2 s) =
      take 2 (dropWhile notBracket (drop 2 s)) @ drop 2 (dropWhile notBracket (drop 2 s))"
    by simp
  have "s = mt @ drop 2 (dropWhile notBracket (drop 2 s))"
    using s d r t2 r2 mt by (metis append.assoc)
  then show "take (length mt) s = mt"
    by (metis append_eq_conv_conj)
qed

lemma scanRegex_matchMarkup_Nil: "scanRegex matchMarkup [] = []"
  by (simp add: matchMarkup_def)

lemma scanRegex_matchMarkup_None:
  "matchMarkup (c # cs) = None \<Longrightarrow>
     scanRegex matchMarkup (c # cs) = Lit c # scanRegex matchMarkup cs"
  by simp

lemma scanRegex_matchMarkup_Hit:
  assumes "matchMarkup (c # cs) = Some (mt, keyword)"
  shows "scanRegex matchMarkup (c # cs) =
     Hit mt keyword # scanRegex matchMarkup (drop (length mt) (c # cs))"
proof -
  have "mt \<noteq> []" using matchMarkup_Some(1) [OF assms] by simp
  then show ?thesis using assms by (simp del: drop_Suc_Cons)
qed

lemma scanRegex_matchMarkup_text:
  "concat (map segText (scanRegex matchMarkup s)) = s"
proof (induction "length s" arbitrary: s rule: less_induct)
  case less
  show ?case
  proof (cases s)
    case Nil
    then show ?thesis by (simp only: scanRegex_matchMarkup_Nil) simp
  next
    case (Cons c cs)
    show ?thesis
    proof (cases "matchMarkup (c # cs)")
      case None
      have "concat (map segText (scanRegex matchMarkup cs)) = cs"
        using less [of cs] Cons by simp
      then show ?thesis
        unfolding Cons scanRegex_matchMarkup_None [OF None] by simp
    next
      case (Some r)
      obtain mt keyword where r: "r = (mt, keyword)" by (cases r)
      have m: "matchMarkup (c # cs) = Some (mt, keyword)" using Some r by simp
      have ne: "mt \<noteq> []" using matchMarkup_Some(1) [OF m] by simp
      have pre: "take (length mt) (c # cs) = mt" by (rule matchMarkup_Some(4) [OF m])
      have "length (drop (length mt) (c # cs)) < length s"
        using ne Cons by (cases mt) simp_all
      then have "concat (map segText (scanRegex matchMarkup (drop (length mt) (c # cs))))
          = drop (length mt) (c # cs)"
        by (rule less)
      then have "concat (map segText (scanRegex matchMarkup (c # cs)))
          = mt @ drop (length mt) (c # cs)"
        unfolding scanRegex_matchMarkup_Hit [OF m] by simp
      also have "\<dots> = take (length mt) (c # cs) @ drop (length mt) (c # cs)"
        unfolding pre ..
      also have "\<dots> = c # cs" by (rule append_take_drop_id)
      finally show ?thesis unfolding Cons .
    qed
  qed
qed

lemma scanRegex_matchMarkup_hits:
  "Hit mt keyword \<in> set (scanRegex matchMarkup s) \<Longrightarrow>
     mt = ''[['' @ keyword @ '']]'' \<and> keyword \<noteq> [] \<and> list_all notBracket keyword"
proof (induction "length s" arbitrary: s rule: less_induct)
  case less
  show ?case
  proof (cases s)
    case Nil
    then show ?thesis using less.prems by (simp only: scanRegex_matchMarkup_Nil) simp
  next
    case (Cons c cs)
    show ?thesis
    proof (cases "matchMarkup (c # cs)")
      case None
      have "Hit mt keyword \<in> set (scanRegex matchMarkup cs)"
        using less.prems unfolding Cons scanRegex_matchMarkup_None [OF None] by simp
      then show ?thesis using less.hyps [of cs] Cons by simp
    next
      case (Some r)
      obtain mt' cap where r: "r = (mt', cap)" by (cases r)
      have m: "matchMarkup (c # cs) = Some (mt', cap)" using Some r by simp
      have ms: "mt' = ''[['' @ cap @ '']]''" "cap \<noteq> []" "list_all notBracket cap"
        using matchMarkup_Some [OF m] by blast+
      have ne: "mt' \<noteq> []" using ms(1) by simp
      have shorter: "length (drop (length mt') (c # cs)) < length s"
        using ne Cons by (cases mt') simp_all
      have "Hit mt keyword = Hit mt' cap
          \<or> Hit mt keyword \<in> set (scanRegex matchMarkup (drop (length mt') (c # cs)))"
        using less.prems unfolding Cons scanRegex_matchMarkup_Hit [OF m] by simp
      then show ?thesis
      proof
        assume "Hit mt keyword = Hit mt' cap"
        then show ?thesis using ms by simp
      next
        assume "Hit mt keyword \<in> set (scanRegex matchMarkup (drop (length mt') (c # cs)))"
        then show ?thesis using less.hyps [OF shorter] by blast
      qed
    qed
  qed
qed

lemma renderSeg_Suc:
  "renderSeg seen (sg # segs) (Suc j) =
     renderSeg (seen \<union> normalizeKeyword ` set (hitKeywords [sg])) segs j"
  by (cases sg) (simp_all add: renderSeg_def Un_assoc split: seg.splits)

lemma renderSeg_0:
  "renderSeg seen (Lit c # segs) 0 = [c]"
  "renderSeg seen (Hit mt keyword # segs) 0 =
     (if normalizeKeyword keyword \<in> seen then keyword else mt)"
  by (simp_all add: renderSeg_def)

lemma dedupSegs_render:
  "dedupSegs seen segs = concat (map (renderSeg seen segs) [0..<length segs])"
proof (induction segs arbitrary: seen)
  case Nil
  then show ?case by simp
next
  case (Cons sg segs)
  have shift: "map (renderSeg seen (sg # segs)) [0..<length (sg # segs)] =
      renderSeg seen (sg # segs) 0
        # map (renderSeg (seen \<union> normalizeKeyword ` set (hitKeywords [sg])) segs) [0..<length segs]"
    by (simp add: map_upt_Suc renderSeg_Suc del: upt_Suc)
  show ?case
  proof (cases sg)
    case (Lit c)
    then show ?thesis using Cons.IH [of seen] unfolding shift by (simp add: renderSeg_0)
  next
    case (Hit mt keyword)
    show ?thesis
    proof (cases "normalizeKeyword keyword \<in> seen")
      case True
      then have "seen \<union> {normalizeKeyword keyword} = seen" by auto
      then show ?thesis using Hit True Cons.IH [of seen] unfolding shift
        by (simp add: renderSeg_0)
    next
      case False
      have "seen \<union> {normalizeKeyword keyword} = insert (normalizeKeyword keyword) seen" by auto
      then show ?thesis using Hit False Cons.IH [of "insert (normalizeKeyword keyword) seen"]
        unfolding shift by (simp add: renderSeg_0)
    qed
  qed
qed

lemma scanRegex_matchMarkup_plain:
  "list_all notBracket a \<Longrightarrow>
     scanRegex matchMarkup (a @ s) = map Lit a @ scanRegex matchMarkup s"
proof (induction a)
  case Nil
  then show ?case by simp
next
  case (Cons c a)
  then have "c \<noteq> CHR ''[''" by (simp add: notBracket_def)
  then have "matchMarkup (c # a @ s) = None" by (simp add: matchMarkup_def)
  then show ?case using Cons by simp
qed

lemma scanRegex_matchMarkup_span:
  assumes "keyword \<noteq> []" "list_all notBracket keyword"
  shows "scanRegex matchMarkup (''[['' @ keyword @ '']]'' @ s) =
     Hit (''[['' @ keyword @ '']]'') keyword # scanRegex matchMarkup s"
proof -
  have tw: "takeWhile notBracket (keyword @ '']]'' @ s) = keyword"
    using assms(2) by (induction keyword) (auto simp: notBracket_def)
  have dw: "dropWhile notBracket (keyword @ '']]'' @ s) = '']]'' @ s"
    using assms(2) by (induction keyword) (auto simp: notBracket_def)
  have m: "matchMarkup (''[['' @ keyword @ '']]'' @ s) = Some (''[['' @ keyword @ '']]'', keyword)"
    using assms(1) tw dw by (simp add: matchMarkup_def)
  have "scanRegex matchMarkup (CHR ''['' # CHR ''['' # keyword @ '']]'' @ s)
      = Hit (''[['' @ keyword @ '']]'') keyword
          # scanRegex matchMarkup (drop (length (''[['' @ keyword @ '']]'')) (''[['' @ keyword @ '']]'' @ s))"
    using m by (simp del: drop_append)
  then show ?thesis by simp
qed

lemma scanRegex_matchConventionalName_plain:
  "\<forall>c \<in> set a. c \<noteq> CHR ''['' \<Longrightarrow>
     scanRegex matchConventionalName (a @ s) = map Lit a @ scanRegex matchConventionalName s"
proof (induction a)
  case Nil
  then show ?case by simp
next
  case (Cons c a)
  then have "c \<noteq> CHR ''[''" by simp
  then have "matchConventionalName (c # a @ s) = None" by (simp add: matchConventionalName_def)
  then show ?case using Cons by simp
qed

lemma scanRegex_matchReference_plain:
  "\<forall>c \<in> set a. c \<noteq> CHR ''['' \<Longrightarrow>
     scanRegex matchReference (a @ s) = map Lit a @ scanRegex matchReference s"
proof (induction a)
  case Nil
  then show ?case by simp
next
  case (Cons c a)
  then have "c \<noteq> CHR ''[''" by simp
  then have "matchReference (c # a @ s) = None" by (simp add: matchReference_def)
  then show ?case using Cons by simp
qed

lemma takeWhile_span:
  "\<forall>c \<in> set k. P c \<Longrightarrow> \<not> P x \<Longrightarrow> takeWhile P (k @ x # s) = k"
  by (induction k) auto

lemma dropWhile_span:
  "\<forall>c \<in> set k. P c \<Longrightarrow> \<not> P x \<Longrightarrow> dropWhile P (k @ x # s) = x # s"
  by (induction k) auto

lemma scanRegex_matchConventionalName_kept:
  assumes "list_all notBracket k" "\<not> isCapPhrase k" "\<not> isYear k"
  shows "scanRegex matchConventionalName (''[['' @ k @ '']]'' @ s) =
     map Lit (''[['' @ k @ '']]'') @ scanRegex matchConventionalName s"
proof -
  have nb: "\<forall>c \<in> set k. c \<noteq> CHR '']''" "\<forall>c \<in> set k. c \<noteq> CHR ''[''"
    using assms(1) by (auto simp: list_all_iff notBracket_def)
  have tw: "takeWhile (\<lambda>c. c \<noteq> CHR '']'') (k @ CHR '']'' # CHR '']'' # s) = k"
    using nb(1) by (intro takeWhile_span) auto
  have m1: "matchConventionalName (CHR ''['' # CHR ''['' # k @ CHR '']'' # CHR '']'' # s) = None"
    using tw assms(2,3) by (simp add: matchConventionalName_def Let_def)
  have m2: "matchConventionalName (CHR ''['' # k @ CHR '']'' # CHR '']'' # s) = None"
    using nb(2) by (cases k) (simp_all add: matchConventionalName_def)
  have rest: "scanRegex matchConventionalName ((k @ '']]'') @ s)
      = map Lit (k @ '']]'') @ scanRegex matchConventionalName s"
    using nb(2) by (intro scanRegex_matchConventionalName_plain) auto
  show ?thesis using m1 m2 rest by simp
qed

lemma scanRegex_matchConventionalName_hit:
  assumes "\<forall>c \<in> set k. c \<noteq> CHR '']''" "isCapPhrase k \<or> isYear k"
  shows "scanRegex matchConventionalName (''[['' @ k @ '']]'' @ s) =
     Hit (''[['' @ k @ '']]'') [] # scanRegex matchConventionalName s"
proof -
  have tw: "takeWhile (\<lambda>c. c \<noteq> CHR '']'') (k @ CHR '']'' # CHR '']'' # s) = k"
    using assms(1) by (intro takeWhile_span) auto
  have dw: "dropWhile (\<lambda>c. c \<noteq> CHR '']'') (k @ CHR '']'' # CHR '']'' # s) = CHR '']'' # CHR '']'' # s"
    using assms(1) by (intro dropWhile_span) auto
  have m: "matchConventionalName (''[['' @ k @ '']]'' @ s) = Some (''[['' @ k @ '']]'', [])"
    using tw dw assms(2) by (simp add: matchConventionalName_def Let_def)
  have "scanRegex matchConventionalName (CHR ''['' # CHR ''['' # k @ '']]'' @ s)
      = Hit (''[['' @ k @ '']]'') []
          # scanRegex matchConventionalName (drop (length (''[['' @ k @ '']]'')) (''[['' @ k @ '']]'' @ s))"
    using m by (simp del: drop_append)
  then show ?thesis by simp
qed

lemma scanRegex_matchReference_kept:
  assumes "list_all notBracket k" "\<not> isReference k"
  shows "scanRegex matchReference (''[['' @ k @ '']]'' @ s) =
     map Lit (''[['' @ k @ '']]'') @ scanRegex matchReference s"
proof -
  have nb: "\<forall>c \<in> set k. c \<noteq> CHR ''[''" "\<forall>c \<in> set k. notBracket c"
    using assms(1) by (auto simp: list_all_iff notBracket_def)
  have tw: "takeWhile notBracket (k @ CHR '']'' # CHR '']'' # s) = k"
    using nb(2) by (intro takeWhile_span) (auto simp: notBracket_def)
  have m1: "matchReference (CHR ''['' # CHR ''['' # k @ CHR '']'' # CHR '']'' # s) = None"
    using tw assms(2) by (simp add: matchReference_def Let_def)
  have m2: "matchReference (CHR ''['' # k @ CHR '']'' # CHR '']'' # s) = None"
    using nb(1) by (cases k) (simp_all add: matchReference_def)
  have rest: "scanRegex matchReference ((k @ '']]'') @ s)
      = map Lit (k @ '']]'') @ scanRegex matchReference s"
    using nb(1) by (intro scanRegex_matchReference_plain) auto
  show ?thesis using m1 m2 rest by simp
qed

lemma replaceAll_Lit: "replaceAll m r s = s" if "scanRegex m s = map Lit s"
  unfolding replaceAll_def that by (induction s) auto

lemma dedupSegs_Lit: "dedupSegs seen (map Lit xs @ segs) = xs @ dedupSegs seen segs"
  by (induction xs) auto

lemma scanRegex_matchMarkup_bracketFree:
  "list_all notBracket d \<Longrightarrow> scanRegex matchMarkup d = map Lit d"
  using scanRegex_matchMarkup_plain [of d "[]"] by (simp add: matchMarkup_def)

lemma removeDuplicates_bracketFree:
  "list_all notBracket d \<Longrightarrow> removeDuplicates d = d"
  using dedupSegs_Lit [of "{}" d "[]"]
  by (simp add: removeDuplicates_def scanRegex_matchMarkup_bracketFree)

lemma removeDuplicates_three_spans:
  assumes "list_all notBracket a" "list_all notBracket b" "list_all notBracket c"
    "list_all notBracket d"
    "k1 \<noteq> []" "list_all notBracket k1" "k2 \<noteq> []" "list_all notBracket k2"
    "k3 \<noteq> []" "list_all notBracket k3"
    "normalizeKeyword k2 = normalizeKeyword k1" "normalizeKeyword k3 = normalizeKeyword k1"
  shows "removeDuplicates (a @ ''[['' @ k1 @ '']]'' @ b @ ''[['' @ k2 @ '']]'' @ c
                               @ ''[['' @ k3 @ '']]'' @ d)
            = a @ ''[['' @ k1 @ '']]'' @ b @ k2 @ c @ k3 @ d"
proof -
  have s1: "\<And>s. scanRegex matchMarkup (''[['' @ k1 @ '']]'' @ s) =
      Hit (''[['' @ k1 @ '']]'') k1 # scanRegex matchMarkup s"
    by (rule scanRegex_matchMarkup_span [OF assms(5,6)])
  have s2: "\<And>s. scanRegex matchMarkup (''[['' @ k2 @ '']]'' @ s) =
      Hit (''[['' @ k2 @ '']]'') k2 # scanRegex matchMarkup s"
    by (rule scanRegex_matchMarkup_span [OF assms(7,8)])
  have s3: "\<And>s. scanRegex matchMarkup (''[['' @ k3 @ '']]'' @ s) =
      Hit (''[['' @ k3 @ '']]'') k3 # scanRegex matchMarkup s"
    by (rule scanRegex_matchMarkup_span [OF assms(9,10)])
  have d0: "scanRegex matchMarkup d = map Lit d"
    by (rule scanRegex_matchMarkup_bracketFree [OF assms(4)])
  have sc: "scanRegex matchMarkup (a @ ''[['' @ k1 @ '']]'' @ b @ ''[['' @ k2 @ '']]'' @ c
                             @ ''[['' @ k3 @ '']]'' @ d)
     = map Lit a @ Hit (''[['' @ k1 @ '']]'') k1 # map Lit b @ Hit (''[['' @ k2 @ '']]'') k2
         # map Lit c @ Hit (''[['' @ k3 @ '']]'') k3 # map Lit d"
    by (simp only: scanRegex_matchMarkup_plain [OF assms(1)] scanRegex_matchMarkup_plain [OF assms(2)]
          scanRegex_matchMarkup_plain [OF assms(3)] s1 s2 s3 d0)
  have "dedupSegs {} (map Lit a @ Hit (''[['' @ k1 @ '']]'') k1 # map Lit b
          @ Hit (''[['' @ k2 @ '']]'') k2 # map Lit c @ Hit (''[['' @ k3 @ '']]'') k3 # map Lit d)
      = a @ (''[['' @ k1 @ '']]'') @ b @ k2 @ c @ k3 @ d"
    using dedupSegs_Lit [of _ d "[]"] by (simp add: dedupSegs_Lit assms(11,12) del: append_Cons)
  then show ?thesis
    unfolding removeDuplicates_def sc by simp
qed

lemma skipConventionalNames_kept_spans:
  assumes "list_all notBracket a" "list_all notBracket b" "list_all notBracket c"
    "list_all notBracket d"
    "list_all notBracket k1" "\<not> isCapPhrase k1" "\<not> isYear k1"
    "list_all notBracket k2" "\<not> isCapPhrase k2" "\<not> isYear k2"
    "list_all notBracket k3" "\<not> isCapPhrase k3" "\<not> isYear k3"
  shows "skipConventionalNames (a @ ''[['' @ k1 @ '']]'' @ b @ ''[['' @ k2 @ '']]'' @ c
                               @ ''[['' @ k3 @ '']]'' @ d)
          = a @ ''[['' @ k1 @ '']]'' @ b @ ''[['' @ k2 @ '']]'' @ c @ ''[['' @ k3 @ '']]'' @ d"
proof -
  have nb: "\<And>x. list_all notBracket x \<Longrightarrow> \<forall>c \<in> set x. c \<noteq> CHR ''[''"
    by (auto simp: list_all_iff notBracket_def)
  have d0: "scanRegex matchConventionalName d = map Lit d"
    using scanRegex_matchConventionalName_plain [OF nb [OF assms(4)], of "[]"]
    by (simp add: matchConventionalName_def)
  let ?T = "a @ ''[['' @ k1 @ '']]'' @ b @ ''[['' @ k2 @ '']]'' @ c @ ''[['' @ k3 @ '']]'' @ d"
  have "scanRegex matchConventionalName ?T
      = map Lit a @ map Lit (''[['' @ k1 @ '']]'') @ map Lit b @ map Lit (''[['' @ k2 @ '']]'')
          @ map Lit c @ map Lit (''[['' @ k3 @ '']]'') @ map Lit d"
    by (simp only: scanRegex_matchConventionalName_plain [OF nb [OF assms(1)]]
          scanRegex_matchConventionalName_plain [OF nb [OF assms(2)]]
          scanRegex_matchConventionalName_plain [OF nb [OF assms(3)]]
          scanRegex_matchConventionalName_kept [OF assms(5,6,7)]
          scanRegex_matchConventionalName_kept [OF assms(8,9,10)]
          scanRegex_matchConventionalName_kept [OF assms(11,12,13)] d0)
  then have "scanRegex matchConventionalName ?T = map Lit ?T" by (simp only: map_append append_assoc)
  then show ?thesis unfolding skipConventionalNames_def by (rule replaceAll_Lit)
qed

lemma deleted_Lit:
  "concat (map ((\<lambda>sg. case sg of Lit c \<Rightarrow> [c] | Hit mt cap \<Rightarrow> []) \<circ> Lit) xs) = xs"
  by (induction xs) auto

lemma skipConventionalNames_deleted_spans:
  assumes "list_all notBracket a" "list_all notBracket b" "list_all notBracket c"
    "list_all notBracket d"
    "\<forall>x \<in> set k1. x \<noteq> CHR '']''" "isCapPhrase k1 \<or> isYear k1"
    "\<forall>x \<in> set k2. x \<noteq> CHR '']''" "isCapPhrase k2 \<or> isYear k2"
    "\<forall>x \<in> set k3. x \<noteq> CHR '']''" "isCapPhrase k3 \<or> isYear k3"
  shows "skipConventionalNames (a @ ''[['' @ k1 @ '']]'' @ b @ ''[['' @ k2 @ '']]'' @ c
                               @ ''[['' @ k3 @ '']]'' @ d)
          = a @ b @ c @ d"
proof -
  have nb: "\<And>x. list_all notBracket x \<Longrightarrow> \<forall>c \<in> set x. c \<noteq> CHR ''[''"
    by (auto simp: list_all_iff notBracket_def)
  have d0: "scanRegex matchConventionalName d = map Lit d"
    using scanRegex_matchConventionalName_plain [OF nb [OF assms(4)], of "[]"]
    by (simp add: matchConventionalName_def)
  let ?T = "a @ ''[['' @ k1 @ '']]'' @ b @ ''[['' @ k2 @ '']]'' @ c @ ''[['' @ k3 @ '']]'' @ d"
  have sc: "scanRegex matchConventionalName ?T
      = map Lit a @ Hit (''[['' @ k1 @ '']]'') [] # map Lit b @ Hit (''[['' @ k2 @ '']]'') []
          # map Lit c @ Hit (''[['' @ k3 @ '']]'') [] # map Lit d"
    by (simp only: scanRegex_matchConventionalName_plain [OF nb [OF assms(1)]]
          scanRegex_matchConventionalName_plain [OF nb [OF assms(2)]]
          scanRegex_matchConventionalName_plain [OF nb [OF assms(3)]]
          scanRegex_matchConventionalName_hit [OF assms(5,6)]
          scanRegex_matchConventionalName_hit [OF assms(7,8)]
          scanRegex_matchConventionalName_hit [OF assms(9,10)] d0)
  show ?thesis unfolding skipConventionalNames_def replaceAll_def sc
    by (simp add: deleted_Lit)
qed

lemma ignoreReferences_first_span:
  assumes "list_all notBracket a" "list_all notBracket k" "\<not> isReference k"
    "list_all notBracket r"
  shows "ignoreReferences (a @ ''[['' @ k @ '']]'' @ r) = a @ ''[['' @ k @ '']]'' @ r"
proof -
  have nb: "\<And>x. list_all notBracket x \<Longrightarrow> \<forall>c \<in> set x. c \<noteq> CHR ''[''"
    by (auto simp: list_all_iff notBracket_def)
  have r0: "scanRegex matchReference r = map Lit r"
    using scanRegex_matchReference_plain [OF nb [OF assms(4)], of "[]"]
    by (simp add: matchReference_def)
  have "scanRegex matchReference (a @ ''[['' @ k @ '']]'' @ r)
      = map Lit a @ map Lit (''[['' @ k @ '']]'') @ map Lit r"
    by (simp only: scanRegex_matchReference_plain [OF nb [OF assms(1)]]
          scanRegex_matchReference_kept [OF assms(2,3)] r0)
  then have "scanRegex matchReference (a @ ''[['' @ k @ '']]'' @ r)
      = map Lit (a @ ''[['' @ k @ '']]'' @ r)" by (simp only: map_append append_assoc)
  then show ?thesis unfolding ignoreReferences_def by (rule replaceAll_Lit)
qed

lemma ignoreReferences_bracketFree:
  assumes "list_all notBracket r"
  shows "ignoreReferences r = r"
proof -
  have nb: "\<forall>c \<in> set r. c \<noteq> CHR ''[''"
    using assms by (auto simp: list_all_iff notBracket_def)
  have "scanRegex matchReference r = map Lit r"
    using scanRegex_matchReference_plain [OF nb, of "[]"]
    by (simp add: matchReference_def)
  then show ?thesis unfolding ignoreReferences_def by (rule replaceAll_Lit)
qed

lemma applyRules_composition:
  "applyRules content = ignoreReferences (removeDuplicates (skipConventionalNames content))"
  by (simp add: applyRules_def applyRulesWith_def PROCESSING_RULES_def)

text \<open>
  C4 as stated: given \<open>[[Cat]]\<close> twice and \<open>[[Cats]]\<close> once, the first of the three spans
  stays bracketed and the other two keep their text. In \<open>applyRules\<close> the duplicate rule
  runs on what the name and number filter has left, and that filter has removed the three
  spans: \<open>Cat\<close> and \<open>Cats\<close> are capitalised words.
\<close>

theorem applyRules_capitalised_spans_counterexample:
  "applyRules ''I saw a [[Cat]] and two [[Cats]] near the [[Cat]].''
     = ''I saw a  and two  near the .''
   \<and> applyRules ''I saw a [[Cat]] and two [[Cats]] near the [[Cat]].''
     \<noteq> ''I saw a [[Cat]] and two Cats near the Cat.''"
  by code_simp

text \<open>
  C4, amended. \<open>applyRules\<close> runs the duplicate rule on the output of the name and number
  filter and gives its output to the reference filter. The duplicate rule scans its input
  from left to right; the scan cuts the text into the characters outside any span and the
  spans \<open>[[keyword]]\<close>, losing nothing. A span is left as it is when no span before it
  has the same normalised keyword, and is replaced by its keyword (the brackets removed)
  otherwise. For a text with three spans of one normalised form between bracket-free
  texts, none of them a name, a number or a reference (\<open>[[cat]]\<close> twice and \<open>[[cats]]\<close>
  once), \<open>applyRules\<close> leaves the first span bracketed and the other two as their plain
  text. When the three keywords are capitalised phrases or years, the filter has removed
  the spans before the duplicate rule runs, and none of them is left.
\<close>

theorem applyRules_keeps_first_span:
  "applyRules text = ignoreReferences (removeDuplicates (skipConventionalNames text))
   \<and> concat (map segText (scanRegex matchMarkup text)) = text
   \<and> (\<forall>mt keyword. Hit mt keyword \<in> set (scanRegex matchMarkup text) \<longrightarrow>
         mt = ''[['' @ keyword @ '']]'' \<and> keyword \<noteq> [] \<and> list_all notBracket keyword)
   \<and> removeDuplicates text =
        concat (map (\<lambda>j. case scanRegex matchMarkup text ! j of
                        Lit c \<Rightarrow> [c]
                      | Hit mt keyword \<Rightarrow>
                          if normalizeKeyword keyword
                               \<in> normalizeKeyword ` set (hitKeywords (take j (scanRegex matchMarkup text)))
                          then keyword else ''[['' @ keyword @ '']]'')
                  [0..<length (scanRegex matchMarkup text)])
   \<and> (list_all notBracket a \<and> list_all notBracket b \<and> list_all notBracket c
        \<and> list_all notBracket d
        \<and> k1 \<noteq> [] \<and> list_all notBracket k1 \<and> \<not> isCapPhrase k1 \<and> \<not> isYear k1
        \<and> k2 \<noteq> [] \<and> list_all notBracket k2 \<and> \<not> isCapPhrase k2 \<and> \<not> isYear k2
        \<and> k3 \<noteq> [] \<and> list_all notBracket k3 \<and> \<not> isCapPhrase k3 \<and> \<not> isYear k3
        \<and> \<not> isReference k1
        \<and> normalizeKeyword k2 = normalizeKeyword k1 \<and> normalizeKeyword k3 = normalizeKeyword k1
      \<longrightarrow> applyRules (a @ ''[['' @ k1 @ '']]'' @ b @ ''[['' @ k2 @ '']]'' @ c
                               @ ''[['' @ k3 @ '']]'' @ d)
            = a @ ''[['' @ k1 @ '']]'' @ b @ k2 @ c @ k3 @ d)
   \<and> (list_all notBracket a \<and> list_all notBracket b \<and> list_all notBracket c
        \<and> list_all notBracket d
        \<and> list_all notBracket k1 \<and> (isCapPhrase k1 \<or> isYear k1)
        \<and> list_all notBracket k2 \<and> (isCapPhrase k2 \<or> isYear k2)
        \<and> list_all notBracket k3 \<and> (isCapPhrase k3 \<or> isYear k3)
      \<longrightarrow> applyRules (a @ ''[['' @ k1 @ '']]'' @ b @ ''[['' @ k2 @ '']]'' @ c
                               @ ''[['' @ k3 @ '']]'' @ d)
            = a @ b @ c @ d)"
proof -
  let ?segs = "scanRegex matchMarkup text"
  have p0: "applyRules text = ignoreReferences (removeDuplicates (skipConventionalNames text))"
    by (rule applyRules_composition)
  have p1: "concat (map segText ?segs) = text" by (rule scanRegex_matchMarkup_text)
  have p2: "\<forall>mt keyword. Hit mt keyword \<in> set ?segs \<longrightarrow>
         mt = ''[['' @ keyword @ '']]'' \<and> keyword \<noteq> [] \<and> list_all notBracket keyword"
    using scanRegex_matchMarkup_hits by blast
  have p3: "removeDuplicates text =
        concat (map (\<lambda>j. case ?segs ! j of
                        Lit c \<Rightarrow> [c]
                      | Hit mt keyword \<Rightarrow>
                          if normalizeKeyword keyword
                               \<in> normalizeKeyword ` set (hitKeywords (take j ?segs))
                          then keyword else ''[['' @ keyword @ '']]'')
                  [0..<length ?segs])"
  proof -
    have "renderSeg {} ?segs j =
          (case ?segs ! j of Lit c \<Rightarrow> [c]
            | Hit mt keyword \<Rightarrow>
                if normalizeKeyword keyword \<in> normalizeKeyword ` set (hitKeywords (take j ?segs))
                then keyword else ''[['' @ keyword @ '']]'')"
      if j: "j \<in> set [0..<length ?segs]" for j
    proof (cases "?segs ! j")
      case (Lit c)
      then show ?thesis by (simp add: renderSeg_def)
    next
      case (Hit mt keyword)
      then have "Hit mt keyword \<in> set ?segs" using j by (metis atLeastLessThan_iff nth_mem set_upt)
      then have "mt = ''[['' @ keyword @ '']]''" using p2 by blast
      then show ?thesis using Hit by (simp add: renderSeg_def)
    qed
    then have "map (renderSeg {} ?segs) [0..<length ?segs] =
        map (\<lambda>j. case ?segs ! j of
                        Lit c \<Rightarrow> [c]
                      | Hit mt keyword \<Rightarrow>
                          if normalizeKeyword keyword
                               \<in> normalizeKeyword ` set (hitKeywords (take j ?segs))
                          then keyword else ''[['' @ keyword @ '']]'')
                  [0..<length ?segs]"
      by (rule map_cong [OF refl])
    moreover have "removeDuplicates text = concat (map (renderSeg {} ?segs) [0..<length ?segs])"
      unfolding removeDuplicates_def by (rule dedupSegs_render)
    ultimately show ?thesis by (simp only:)
  qed
  let ?T = "a @ ''[['' @ k1 @ '']]'' @ b @ ''[['' @ k2 @ '']]'' @ c @ ''[['' @ k3 @ '']]'' @ d"
  have p4: "applyRules ?T = a @ ''[['' @ k1 @ '']]'' @ b @ k2 @ c @ k3 @ d"
    if h: "list_all notBracket a" "list_all notBracket b" "list_all notBracket c"
        "list_all notBracket d"
        "k1 \<noteq> []" "list_all notBracket k1" "\<not> isCapPhrase k1" "\<not> isYear k1"
        "k2 \<noteq> []" "list_all notBracket k2" "\<not> isCapPhrase k2" "\<not> isYear k2"
        "k3 \<noteq> []" "list_all notBracket k3" "\<not> isCapPhrase k3" "\<not> isYear k3"
        "\<not> isReference k1"
        "normalizeKeyword k2 = normalizeKeyword k1" "normalizeKeyword k3 = normalizeKeyword k1"
  proof -
    have f: "skipConventionalNames ?T = ?T"
      by (rule skipConventionalNames_kept_spans
            [OF h(1,2,3,4) h(6,7,8) h(10,11,12) h(14,15,16)])
    have g: "removeDuplicates ?T = a @ ''[['' @ k1 @ '']]'' @ (b @ k2 @ c @ k3 @ d)"
      using removeDuplicates_three_spans [OF h(1,2,3,4) h(5,6) h(9,10) h(13,14) h(18,19)]
      by simp
    have r: "list_all notBracket (b @ k2 @ c @ k3 @ d)"
      using h(2,3,4,10,14) by simp
    have i: "ignoreReferences (a @ ''[['' @ k1 @ '']]'' @ (b @ k2 @ c @ k3 @ d))
        = a @ ''[['' @ k1 @ '']]'' @ (b @ k2 @ c @ k3 @ d)"
      by (rule ignoreReferences_first_span [OF h(1) h(6) h(17) r])
    show ?thesis unfolding applyRules_composition f g i by simp
  qed
  have p5: "applyRules ?T = a @ b @ c @ d"
    if h: "list_all notBracket a" "list_all notBracket b" "list_all notBracket c"
        "list_all notBracket d"
        "list_all notBracket k1" "isCapPhrase k1 \<or> isYear k1"
        "list_all notBracket k2" "isCapPhrase k2 \<or> isYear k2"
        "list_all notBracket k3" "isCapPhrase k3 \<or> isYear k3"
  proof -
    have nb: "\<And>x. list_all notBracket x \<Longrightarrow> \<forall>c \<in> set x. c \<noteq> CHR '']''"
      by (auto simp: list_all_iff notBracket_def)
    have f: "skipConventionalNames ?T = a @ b @ c @ d"
      by (rule skipConventionalNames_deleted_spans
            [OF h(1,2,3,4) nb [OF h(5)] h(6) nb [OF h(7)] h(8) nb [OF h(9)] h(10)])
    have r: "list_all notBracket (a @ b @ c @ d)" using h(1,2,3,4) by simp
    show ?thesis
      unfolding applyRules_composition f removeDuplicates_bracketFree [OF r]
        ignoreReferences_bracketFree [OF r] by (rule refl)
  qed
  show ?thesis by (intro conjI impI) (use p0 p1 p2 p3 p4 p5 in blast)+
qed

theorem applyRules_keeps_first_span_witness:
  "list_all notBracket ''I saw a '' \<and> list_all notBracket '' and two ''
   \<and> list_all notBracket '' near the '' \<and> list_all notBracket ''.''
   \<and> list_all notBracket ''cat'' \<and> \<not> isCapPhrase ''cat'' \<and> \<not> isYear ''cat''
   \<and> list_all notBracket ''cats'' \<and> \<not> isCapPhrase ''cats'' \<and> \<not> isYear ''cats''
   \<and> \<not> isReference ''cat'' \<and> normalizeKeyword ''cats'' = normalizeKeyword ''cat''
   \<and> applyRules ''I saw a [[cat]] and two [[cats]] near the [[cat]].''
       = ''I saw a [[cat]] and two cats near the cat.''
   \<and> list_all notBracket ''Ada Lovelace'' \<and> isCapPhrase ''Ada Lovelace''
   \<and> list_all notBracket ''1990s'' \<and> isYear ''1990s''
   \<and> list_all notBracket ''Dogs'' \<and> isCapPhrase ''Dogs''
   \<and> applyRules ''I saw a [[Ada Lovelace]] and two [[1990s]] near the [[Dogs]].''
       = ''I saw a  and two  near the .''
   \<and> Hit ''[[cats]]'' ''cats'' \<in> set (scanRegex matchMarkup ''a [[cats]]'')"
proof -
  have h: "list_all notBracket ''I saw a ''" "list_all notBracket '' and two ''"
    "list_all notBracket '' near the ''" "list_all notBracket ''.''"
    by (simp_all add: notBracket_def)
  have k: "list_all notBracket ''cat''" "\<not> isCapPhrase ''cat''" "\<not> isYear ''cat''"
    "list_all notBracket ''cats''" "\<not> isCapPhrase ''cats''" "\<not> isYear ''cats''"
    "\<not> isReference ''cat''" "normalizeKeyword ''cats'' = normalizeKeyword ''cat''"
    by code_simp+
  have ne: "''cat'' \<noteq> []" "''cats'' \<noteq> []" by simp_all
  have n: "list_all notBracket ''Ada Lovelace''" "isCapPhrase ''Ada Lovelace''"
    "list_all notBracket ''1990s''" "isYear ''1990s''"
    "list_all notBracket ''Dogs''" "isCapPhrase ''Dogs''"
    by code_simp+
  have s: "Hit ''[[cats]]'' ''cats'' \<in> set (scanRegex matchMarkup ''a [[cats]]'')"
    by (simp add: matchMarkup_def notBracket_def)
  note t1 = applyRules_keeps_first_span
    [of "''a [[cats]]''" "''I saw a ''" "'' and two ''" "'' near the ''" "''.''"
        "''cat''" "''cats''" "''cat''"]
  have "applyRules (''I saw a '' @ ''[['' @ ''cat'' @ '']]'' @ '' and two '' @ ''[[''
          @ ''cats'' @ '']]'' @ '' near the '' @ ''[['' @ ''cat'' @ '']]'' @ ''.'')
      = ''I saw a '' @ ''[['' @ ''cat'' @ '']]'' @ '' and two '' @ ''cats'' @ '' near the ''
          @ ''cat'' @ ''.''"
    using t1 h k ne by blast
  then have r1: "applyRules ''I saw a [[cat]] and two [[cats]] near the [[cat]].''
       = ''I saw a [[cat]] and two cats near the cat.''" by simp
  note t2 = applyRules_keeps_first_span
    [of "''a [[cats]]''" "''I saw a ''" "'' and two ''" "'' near the ''" "''.''"
        "''Ada Lovelace''" "''1990s''" "''Dogs''"]
  have "applyRules (''I saw a '' @ ''[['' @ ''Ada Lovelace'' @ '']]'' @ '' and two '' @ ''[[''
          @ ''1990s'' @ '']]'' @ '' near the '' @ ''[['' @ ''Dogs'' @ '']]'' @ ''.'')
      = ''I saw a '' @ '' and two '' @ '' near the '' @ ''.''"
    using t2 h n by blast
  then have r2: "applyRules ''I saw a [[Ada Lovelace]] and two [[1990s]] near the [[Dogs]].''
       = ''I saw a  and two  near the .''" by simp
  show ?thesis by (intro conjI) (rule h k n r1 r2 s)+
qed

section \<open>Order of the rules\<close>

lemma scanRegex_lits: "Lit c \<in> set (scanRegex m s) \<Longrightarrow> c \<in> set s"
proof (induction "length s" arbitrary: s rule: less_induct)
  case less
  show ?case
  proof (cases s)
    case Nil
    then show ?thesis using less.prems by (auto split: option.splits)
  next
    case (Cons x xs)
    show ?thesis
    proof (cases "m (x # xs)")
      case None
      then have "Lit c = Lit x \<or> Lit c \<in> set (scanRegex m xs)"
        using less.prems Cons by simp
      then show ?thesis using less.hyps [of xs] Cons by auto
    next
      case (Some r)
      obtain mt cap where r: "r = (mt, cap)" by (cases r)
      show ?thesis
      proof (cases "mt = []")
        case True
        then have "Lit c = Lit x \<or> Lit c \<in> set (scanRegex m xs)"
          using less.prems Cons Some r by simp
        then show ?thesis using less.hyps [of xs] Cons by auto
      next
        case False
        then have "Lit c \<in> set (scanRegex m (drop (length mt) (x # xs)))"
          using less.prems Cons Some r by (simp del: drop_Suc_Cons)
        moreover have "length (drop (length mt) (x # xs)) < length s"
          using False Cons by (cases mt) simp_all
        ultimately have "c \<in> set (drop (length mt) (x # xs))" using less.hyps by blast
        then show ?thesis using Cons by (metis in_set_dropD)
      qed
    qed
  qed
qed

lemma set_replaceAll_empty: "set (replaceAll m [] s) \<subseteq> set s"
proof
  fix c assume "c \<in> set (replaceAll m [] s)"
  then obtain sg where sg: "sg \<in> set (scanRegex m s)"
      "c \<in> set (case sg of Lit c \<Rightarrow> [c] | Hit mt cap \<Rightarrow> [])"
    by (auto simp: replaceAll_def)
  then have "sg = Lit c" by (cases sg) auto
  then show "c \<in> set s" using sg(1) scanRegex_lits by blast
qed

lemma set_dedupSegs:
  "set (dedupSegs seen segs)
     \<subseteq> (\<Union>sg \<in> set segs. set (segText sg)) \<union> (\<Union>k \<in> set (hitKeywords segs). set k)"
proof (induction segs arbitrary: seen)
  case Nil
  then show ?case by simp
next
  case (Cons sg segs)
  show ?case
  proof (cases sg)
    case (Lit c)
    then show ?thesis using Cons [of seen] by auto
  next
    case (Hit mt keyword)
    then show ?thesis
      using Cons [of seen] Cons [of "insert (normalizeKeyword keyword) seen"]
      by (auto simp: Let_def)
  qed
qed

lemma hitKeywords_set:
  "k \<in> set (hitKeywords segs) \<Longrightarrow> \<exists>mt. Hit mt k \<in> set segs"
  by (induction segs rule: hitKeywords.induct) auto

lemma set_removeDuplicates: "set (removeDuplicates s) \<subseteq> set s"
proof
  fix c assume c: "c \<in> set (removeDuplicates s)"
  let ?segs = "scanRegex matchMarkup s"
  have whole: "set s = (\<Union>sg \<in> set ?segs. set (segText sg))"
    using scanRegex_matchMarkup_text [of s] by (metis set_concat set_map image_image)
  from c set_dedupSegs [of "{}" ?segs]
  have "c \<in> (\<Union>sg \<in> set ?segs. set (segText sg)) \<or> c \<in> (\<Union>k \<in> set (hitKeywords ?segs). set k)"
    unfolding removeDuplicates_def by blast
  then show "c \<in> set s"
  proof
    assume "c \<in> (\<Union>sg \<in> set ?segs. set (segText sg))"
    then show ?thesis using whole by simp
  next
    assume "c \<in> (\<Union>k \<in> set (hitKeywords ?segs). set k)"
    then obtain k where k: "k \<in> set (hitKeywords ?segs)" "c \<in> set k" by blast
    then obtain mt where mt: "Hit mt k \<in> set ?segs" using hitKeywords_set by blast
    then have "mt = ''[['' @ k @ '']]''" using scanRegex_matchMarkup_hits by blast
    then have "c \<in> set (segText (Hit mt k))" using k(2) by simp
    then show ?thesis using whole mt by blast
  qed
qed

lemma isReference_chars:
  "isReference w \<Longrightarrow> CHR ''@'' \<in> set w \<or> CHR '':'' \<in> set w"
proof -
  assume "isReference w"
  then consider "take 1 w = ''@''" | "take 7 w = ''http://''" | "take 8 w = ''https://''"
    by (auto simp: isReference_def)
  then show ?thesis
  proof cases
    case 1
    then have "CHR ''@'' \<in> set (take 1 w)" by simp
    then show ?thesis by (metis in_set_takeD)
  next
    case 2
    then have "CHR '':'' \<in> set (take 7 w)" by simp
    then show ?thesis by (metis in_set_takeD)
  next
    case 3
    then have "CHR '':'' \<in> set (take 8 w)" by simp
    then show ?thesis by (metis in_set_takeD)
  qed
qed

lemma matchReference_None:
  assumes "CHR ''@'' \<notin> set s" "CHR '':'' \<notin> set s"
  shows "matchReference s = None"
proof -
  have "set (takeWhile notBracket (drop 2 s)) \<subseteq> set s"
    by (meson set_takeWhileD in_set_dropD subsetI)
  then have "\<not> isReference (takeWhile notBracket (drop 2 s))"
    using assms isReference_chars by blast
  then show ?thesis by (simp add: matchReference_def Let_def)
qed

lemma ignoreReferences_id:
  "CHR ''@'' \<notin> set s \<Longrightarrow> CHR '':'' \<notin> set s \<Longrightarrow> ignoreReferences s = s"
proof -
  assume a: "CHR ''@'' \<notin> set s" "CHR '':'' \<notin> set s"
  have "scanRegex matchReference s = map Lit s"
    using a
  proof (induction s)
    case Nil
    then show ?case using matchReference_None [of "[]"] by simp
  next
    case (Cons c cs)
    have "matchReference (c # cs) = None" by (rule matchReference_None [OF Cons.prems])
    then show ?case using Cons by simp
  qed
  moreover have "concat (map (\<lambda>sg. case sg of Lit c \<Rightarrow> [c] | Hit mt cap \<Rightarrow> []) (map Lit s)) = s"
    by (induction s) auto
  ultimately show ?thesis by (simp add: ignoreReferences_def replaceAll_def)
qed

text \<open>
  C5 as stated: \<open>applyRules\<close> is the two filters followed by the duplicate rule. It is
  not: the reference filter runs last, so a reference span is counted as the first
  occurrence of its form, the later span of the same form loses its brackets, and only then
  is the first span removed.
\<close>

theorem applyRules_filters_first_counterexample:
  "applyRules ''[[@ref]] [[@ref]]'' = '' @ref''
   \<and> removeDuplicates (ignoreReferences (skipConventionalNames ''[[@ref]] [[@ref]]'')) = '' ''
   \<and> applyRules ''[[@ref]] [[@ref]]''
       \<noteq> removeDuplicates (ignoreReferences (skipConventionalNames ''[[@ref]] [[@ref]]''))"
  by code_simp

text \<open>
  C5, amended. \<open>applyRules\<close> is the name and number filter, then the duplicate rule, then
  the reference filter; each rule that is switched off is skipped. On a text without \<open>@\<close>
  and without \<open>:\<close> no reference span exists or can arise (the rules only delete
  characters), and there \<open>applyRules\<close> is also the two filters followed by the duplicate
  rule.
\<close>

theorem applyRules_order:
  "applyRules content = ignoreReferences (removeDuplicates (skipConventionalNames content))
   \<and> applyRulesWith rules content =
       (if IGNORE_REFERENCES rules then ignoreReferences else id)
         ((if REMOVE_DUPLICATES rules then removeDuplicates else id)
           ((if SKIP_CONVENTIONAL_NAMES rules then skipConventionalNames else id) content))
   \<and> (CHR ''@'' \<notin> set content \<and> CHR '':'' \<notin> set content \<longrightarrow>
        applyRules content = removeDuplicates (ignoreReferences (skipConventionalNames content)))"
proof -
  have a: "applyRules content = ignoreReferences (removeDuplicates (skipConventionalNames content))"
    by (simp add: applyRules_def applyRulesWith_def PROCESSING_RULES_def)
  have b: "applyRulesWith rules content =
       (if IGNORE_REFERENCES rules then ignoreReferences else id)
         ((if REMOVE_DUPLICATES rules then removeDuplicates else id)
           ((if SKIP_CONVENTIONAL_NAMES rules then skipConventionalNames else id) content))"
    by (simp add: applyRulesWith_def)
  have c: "applyRules content = removeDuplicates (ignoreReferences (skipConventionalNames content))"
    if h: "CHR ''@'' \<notin> set content" "CHR '':'' \<notin> set content"
  proof -
    let ?t = "skipConventionalNames content"
    have st: "set ?t \<subseteq> set content"
      unfolding skipConventionalNames_def by (rule set_replaceAll_empty)
    have sd: "set (removeDuplicates ?t) \<subseteq> set content"
      using set_removeDuplicates [of ?t] st by blast
    have i1: "ignoreReferences ?t = ?t" using st h by (intro ignoreReferences_id) auto
    have i2: "ignoreReferences (removeDuplicates ?t) = removeDuplicates ?t"
      using sd h by (intro ignoreReferences_id) auto
    show ?thesis unfolding a i1 i2 by (rule refl)
  qed
  show ?thesis using a b c by blast
qed

theorem applyRules_order_witness:
  "CHR ''@'' \<notin> set ''[[As]] [[A]] [[cat]] [[cats]]''
   \<and> CHR '':'' \<notin> set ''[[As]] [[A]] [[cat]] [[cats]]''
   \<and> applyRules ''[[As]] [[A]] [[cat]] [[cats]]'' = '' [[A]] [[cat]] cats''
   \<and> removeDuplicates (ignoreReferences (skipConventionalNames ''[[As]] [[A]] [[cat]] [[cats]]''))
       = '' [[A]] [[cat]] cats''"
proof -
  have h: "CHR ''@'' \<notin> set ''[[As]] [[A]] [[cat]] [[cats]]''"
      "CHR '':'' \<notin> set ''[[As]] [[A]] [[cat]] [[cats]]''"
    by simp_all
  have v: "applyRules ''[[As]] [[A]] [[cat]] [[cats]]'' = '' [[A]] [[cat]] cats''"
    by code_simp
  have "applyRules ''[[As]] [[A]] [[cat]] [[cats]]''
      = removeDuplicates (ignoreReferences (skipConventionalNames ''[[As]] [[A]] [[cat]] [[cats]]''))"
    using applyRules_order [of "''[[As]] [[A]] [[cat]] [[cats]]''" PROCESSING_RULES] h by blast
  then have w: "removeDuplicates (ignoreReferences (skipConventionalNames ''[[As]] [[A]] [[cat]] [[cats]]''))
       = '' [[A]] [[cat]] cats''"
    using v by simp
  show ?thesis by (intro conjI) (rule h v w)+
qed

section \<open>Provider dispatch\<close>

text \<open>
  C10. \<open>getProvider\<close> compares the lower-cased name: it returns a provider exactly for
  the seven identifiers, the provider of the class whose name is the lower-cased identifier,
  and throws "Unknown provider: " followed by the name as given for every other name. Names
  that differ only in case are dispatched alike.
\<close>

theorem getProvider_dispatch:
  "(toLowerCase name \<in> {''deepseek'', ''openai'', ''azure'', ''google'', ''anthropic'',
                         ''mistral'', ''ollama''}
      \<longrightarrow> (\<exists>cls. getProvider name config = Inr (newProvider cls config)
                 \<and> providerName cls = toLowerCase name))
   \<and> (toLowerCase name \<notin> {''deepseek'', ''openai'', ''azure'', ''google'', ''anthropic'',
                          ''mistral'', ''ollama''}
      \<longrightarrow> getProvider name config = Inl (Error (''Unknown provider: '' @ name)))
   \<and> (toLowerCase name = toLowerCase other
      \<longrightarrow> map_sum (\<lambda>e. ()) id (getProvider name config)
            = map_sum (\<lambda>e. ()) id (getProvider other config))"
  by (auto simp: getProvider_def Let_def)

theorem getProvider_dispatch_witness:
  "toLowerCase ''DeepSeek'' \<in> {''deepseek'', ''openai'', ''azure'', ''google'', ''anthropic'',
                         ''mistral'', ''ollama''}
   \<and> getProvider ''DeepSeek'' () = Inr (newProvider DeepSeekProvider ())
   \<and> toLowerCase ''gpt'' \<notin> {''deepseek'', ''openai'', ''azure'', ''google'', ''anthropic'',
                         ''mistral'', ''ollama''}
   \<and> getProvider ''gpt'' () = Inl (Error ''Unknown provider: gpt'')
   \<and> toLowerCase ''OLLAMA'' = toLowerCase ''Ollama''
   \<and> map_sum (\<lambda>e. ()) id (getProvider ''OLLAMA'' ()) = map_sum (\<lambda>e. ()) id (getProvider ''Ollama'' ())"
proof -
  have l1: "toLowerCase ''DeepSeek'' = ''deepseek''"
    by (simp add: toLowerCase_def lowerChar_def upperChars_def lowerChars_def)
  have l2: "toLowerCase ''gpt'' = ''gpt''"
    by (simp add: toLowerCase_def lowerChar_def upperChars_def lowerChars_def)
  have l3: "toLowerCase ''OLLAMA'' = toLowerCase ''Ollama''"
    by (simp add: toLowerCase_def lowerChar_def upperChars_def lowerChars_def)
  have a: "\<exists>cls. getProvider ''DeepSeek'' () = Inr (newProvider cls ())
                 \<and> providerName cls = toLowerCase ''DeepSeek''"
    using getProvider_dispatch [of "''DeepSeek''" "()" "''DeepSeek''"] l1 by simp
  then obtain cls where c: "getProvider ''DeepSeek'' () = Inr (newProvider cls ())"
      "providerName cls = ''deepseek''" using l1 by auto
  from c(2) have "cls = DeepSeekProvider" by (cases cls) simp_all
  with c(1) have g1: "getProvider ''DeepSeek'' () = Inr (newProvider DeepSeekProvider ())" by simp
  have g2: "getProvider ''gpt'' () = Inl (Error ''Unknown provider: gpt'')"
    using getProvider_dispatch [of "''gpt''" "()" "''gpt''"] l2 by simp
  have g3: "map_sum (\<lambda>e. ()) id (getProvider ''OLLAMA'' ()) = map_sum (\<lambda>e. ()) id (getProvider ''Ollama'' ())"
    using getProvider_dispatch [of "''OLLAMA''" "()" "''Ollama''"] l3 by blast
  show ?thesis using l1 l2 l3 g1 g2 g3 by simp
qed


section \<open>Chunker: size bound\<close>

lemma splitLoop_loopPairs:
  "splitLoop chunkSize paragraphs chunks currentChunk currentCount =
     loopPairs chunkSize (pairUp paragraphs) chunks currentChunk currentCount"
proof (induction paragraphs arbitrary: chunks currentChunk currentCount rule: pairUp.induct)
  case 1
  then show ?case by simp
next
  case (2 para)
  then show ?case by (simp add: Let_def)
next
  case (3 para sep rest)
  then show ?case by (simp add: Let_def)
qed

lemma splitWs_nonempty: "splitWs cur s \<noteq> []"
  by (induction cur s rule: splitWs.induct) auto

lemma paraWordCount_pos: "0 < paraWordCount para"
  using splitWs_nonempty [of "[]" para] by (simp add: paraWordCount_def)

lemma pwSum_simps [simp]:
  "pwSum [] = 0"
  "pwSum ((para, sep) # g) = paraWordCount para + pwSum g"
  "pwSum (g @ h) = pwSum g + pwSum h"
  by (simp_all add: pwSum_def)

lemma pwSum_zero: "pwSum g = 0 \<longleftrightarrow> g = []"
proof (cases g)
  case Nil
  then show ?thesis by simp
next
  case (Cons x xs)
  obtain para sep where "x = (para, sep)" by (cases x)
  then show ?thesis using Cons paraWordCount_pos [of para] by simp
qed

lemma chunkOf_simps [simp]:
  "chunkOf [] = []"
  "chunkOf ((para, sep) # g) = para @ sep @ chunkOf g"
  "chunkOf (g @ h) = chunkOf g @ chunkOf h"
  by (simp_all add: chunkOf_def)

lemma loopPairs_groups:
  assumes "groupOk chunkSize g0"
  shows "\<exists>groups gl.
     loopPairs chunkSize ps chunks (map (\<lambda>(para, sep). para @ sep) g0) (pwSum g0) =
       (chunks @ map chunkOf groups, map (\<lambda>(para, sep). para @ sep) gl, pwSum gl)
     \<and> concat groups @ gl = g0 @ filter (\<lambda>(para, sep). trim para \<noteq> []) ps
     \<and> (\<forall>g \<in> set groups. g \<noteq> [] \<and> groupOk chunkSize g)
     \<and> groupOk chunkSize gl"
  using assms
proof (induction ps arbitrary: chunks g0)
  case Nil
  show ?case
    by (rule exI [of _ "[]"], rule exI [of _ g0]) (use Nil in simp)
next
  case (Cons p ps)
  obtain para sep where p: "p = (para, sep)" by (cases p)
  show ?case
  proof (cases "trim para = []")
    case True
    then show ?thesis using Cons.IH [OF Cons.prems, of chunks] p by simp
  next
    case False
    show ?thesis
    proof (cases "int (pwSum g0 + paraWordCount para) > chunkSize \<and> pwSum g0 > 0")
      case True
      then have ne: "g0 \<noteq> []" using pwSum_zero [of g0] by auto
      have ok1: "groupOk chunkSize [(para, sep)]" by (simp add: groupOk_def)
      from Cons.IH [OF ok1, of "chunks @ [chunkOf g0]"]
      obtain groups gl where
        r: "loopPairs chunkSize ps (chunks @ [chunkOf g0]) [para @ sep] (paraWordCount para) =
             ((chunks @ [chunkOf g0]) @ map chunkOf groups, map (\<lambda>(para, sep). para @ sep) gl, pwSum gl)"
        and c: "concat groups @ gl = [(para, sep)] @ filter (\<lambda>(para, sep). trim para \<noteq> []) ps"
        and g: "\<forall>g \<in> set groups. g \<noteq> [] \<and> groupOk chunkSize g"
        and l: "groupOk chunkSize gl"
        by auto
      have step: "loopPairs chunkSize (p # ps) chunks (map (\<lambda>(para, sep). para @ sep) g0) (pwSum g0)
          = loopPairs chunkSize ps (chunks @ [chunkOf g0]) [para @ sep] (paraWordCount para)"
        using p False True by (simp add: chunkOf_def)
      show ?thesis
        apply (rule exI [of _ "g0 # groups"], rule exI [of _ gl])
        using step r c g l ne Cons.prems p False by simp
    next
      case nf: False
      have ok2: "groupOk chunkSize (g0 @ [(para, sep)])"
      proof (cases "g0 = []")
        case True
        then show ?thesis by (simp add: groupOk_def)
      next
        case ne: False
        then have "pwSum g0 > 0" using pwSum_zero [of g0] by auto
        then show ?thesis using nf by (simp add: groupOk_def)
      qed
      from Cons.IH [OF ok2, of chunks]
      obtain groups gl where
        r: "loopPairs chunkSize ps chunks (map (\<lambda>(para, sep). para @ sep) (g0 @ [(para, sep)]))
              (pwSum (g0 @ [(para, sep)])) =
             (chunks @ map chunkOf groups, map (\<lambda>(para, sep). para @ sep) gl, pwSum gl)"
        and c: "concat groups @ gl = (g0 @ [(para, sep)]) @ filter (\<lambda>(para, sep). trim para \<noteq> []) ps"
        and g: "\<forall>g \<in> set groups. g \<noteq> [] \<and> groupOk chunkSize g"
        and l: "groupOk chunkSize gl"
        by auto
      have step: "loopPairs chunkSize (p # ps) chunks (map (\<lambda>(para, sep). para @ sep) g0) (pwSum g0)
          = loopPairs chunkSize ps chunks (map (\<lambda>(para, sep). para @ sep) (g0 @ [(para, sep)]))
              (pwSum (g0 @ [(para, sep)]))"
        using p False nf by auto
      show ?thesis
        apply (rule exI [of _ groups], rule exI [of _ gl])
        using step r c g l p False by simp
    qed
  qed
qed

lemma splitMarkdown_groups:
  "\<exists>groups. splitMarkdown content chunkSize = map chunkOf groups
     \<and> concat groups = keptParagraphs content
     \<and> (\<forall>g \<in> set groups. g \<noteq> [] \<and> groupOk chunkSize g)"
proof -
  have ok0: "groupOk chunkSize []" by (simp add: groupOk_def)
  from loopPairs_groups [OF ok0, of "pairUp (splitParagraphs [] content)" "[]"]
  obtain groups gl where
    r: "loopPairs chunkSize (pairUp (splitParagraphs [] content)) [] [] 0 =
         (map chunkOf groups, map (\<lambda>(para, sep). para @ sep) gl, pwSum gl)"
    and c: "concat groups @ gl = keptParagraphs content"
    and g: "\<forall>g \<in> set groups. g \<noteq> [] \<and> groupOk chunkSize g"
    and l: "groupOk chunkSize gl"
    by (auto simp: keptParagraphs_def)
  have sm: "splitMarkdown content chunkSize =
      (if gl \<noteq> [] then map chunkOf groups @ [chunkOf gl] else map chunkOf groups)"
    unfolding splitMarkdown_def Let_def splitLoop_loopPairs r by (simp add: chunkOf_def)
  show ?thesis
  proof (cases "gl = []")
    case True
    show ?thesis
      by (rule exI [of _ groups]) (use sm c g True in simp)
  next
    case False
    show ?thesis
      by (rule exI [of _ "groups @ [gl]"]) (use sm c g l False in auto)
  qed
qed

lemma tokStarts_dropWhile: "tokStarts True (dropWhile isSpace cs) = tokStarts True cs"
  by (induction cs) auto

lemma splitWs_tokens:
  "length (filter (\<lambda>t. t \<noteq> []) (splitWs cur s)) =
     (if cur = [] then tokStarts True s else 1 + tokStarts False s)"
proof (induction cur s rule: splitWs.induct)
  case (1 cur)
  then show ?case by simp
next
  case (2 cur c cs)
  show ?case
  proof (cases "isSpace c")
    case True
    then show ?thesis using 2(1) by (simp add: tokStarts_dropWhile)
  next
    case False
    then show ?thesis using 2(2) by simp
  qed
qed

lemma tokenCount_tokStarts: "tokenCount s = tokStarts True s"
  by (simp add: tokenCount_def splitWs_tokens)

lemma tokStarts_mono: "tokStarts False s \<le> tokStarts True s"
  by (cases s) auto

lemma tokStarts_append:
  "tokStarts b (xs @ ys) \<le> tokStarts b xs + tokStarts True ys"
proof (induction xs arbitrary: b)
  case Nil
  then show ?case using tokStarts_mono [of ys] by (cases b) auto
next
  case (Cons x xs)
  then show ?case using Cons [of "isSpace x"] by auto
qed

lemma tokenCount_append: "tokenCount (xs @ ys) \<le> tokenCount xs + tokenCount ys"
  by (simp add: tokenCount_tokStarts tokStarts_append)

lemma tokStarts_space: "list_all isSpace s \<Longrightarrow> tokStarts b s = 0"
  by (induction s arbitrary: b) auto

lemma tokenCount_space: "list_all isSpace s \<Longrightarrow> tokenCount s = 0"
  by (simp add: tokenCount_tokStarts tokStarts_space)

lemma tokenCount_le_paraWordCount: "tokenCount s \<le> paraWordCount s"
  by (simp add: tokenCount_def paraWordCount_def)

lemma sepTail_space: "sepTail cs = Some n \<Longrightarrow> list_all isSpace (take n cs)"
proof (induction cs arbitrary: n)
  case Nil
  then show ?case by simp
next
  case (Cons c cs)
  show ?case
  proof (cases "isSpace c")
    case False
    then show ?thesis using Cons.prems by simp
  next
    case True
    show ?thesis
    proof (cases "sepTail cs")
      case None
      then have "n = Suc (length (takeWhile (\<lambda>d. d = CHR 0x0A) cs))"
        using Cons.prems True by (simp split: if_splits)
      moreover have "list_all isSpace (take (length (takeWhile (\<lambda>d. d = CHR 0x0A) cs)) cs)"
      proof -
        have "take (length (takeWhile (\<lambda>d. d = CHR 0x0A) cs)) cs = takeWhile (\<lambda>d. d = CHR 0x0A) cs"
          by (metis append_eq_conv_conj takeWhile_dropWhile_id)
        moreover have "list_all isSpace (takeWhile (\<lambda>d. d = CHR 0x0A) cs)"
          unfolding list_all_iff by (auto dest!: set_takeWhileD simp: isSpace_def)
        ultimately show ?thesis by simp
      qed
      ultimately show ?thesis using True by simp
    next
      case (Some m)
      then have "n = Suc m" using Cons.prems True by simp
      then show ?thesis using Cons.IH [OF Some] True by simp
    qed
  qed
qed

lemma splitParagraphs_seps:
  "(para, sep) \<in> set (pairUp (splitParagraphs cur s)) \<Longrightarrow> list_all isSpace sep"
proof (induction cur s rule: splitParagraphs.induct)
  case (1 cur)
  then show ?case by simp
next
  case (2 cur c cs)
  show ?case
  proof (cases "c = CHR 0x0A")
    case False
    then show ?thesis using 2(3,4) by simp
  next
    case nl: True
    show ?thesis
    proof (cases "sepTail cs")
      case None
      then show ?thesis using 2(1) [OF nl None] 2(4) nl by simp
    next
      case (Some n)
      have sp: "list_all isSpace (c # take n cs)"
        using sepTail_space [OF Some] nl by (simp add: isSpace_def)
      from 2(4) Some nl
      have "(para, sep) = (cur, c # take n cs)
          \<or> (para, sep) \<in> set (pairUp (splitParagraphs [] (drop n cs)))"
        by simp
      then show ?thesis
      proof
        assume "(para, sep) = (cur, c # take n cs)"
        then show ?thesis using sp by simp
      next
        assume "(para, sep) \<in> set (pairUp (splitParagraphs [] (drop n cs)))"
        then show ?thesis using 2(2) [OF nl Some] by simp
      qed
    qed
  qed
qed

lemma tokenCount_piece:
  "list_all isSpace sep \<Longrightarrow> tokenCount (para @ sep) \<le> tokenCount para"
  using tokenCount_append [of para sep] tokenCount_space [of sep] by simp

lemma tokenCount_chunkOf:
  "\<forall>(para, sep) \<in> set g. list_all isSpace sep \<Longrightarrow> tokenCount (chunkOf g) \<le> pwSum g"
proof (induction g)
  case Nil
  then show ?case by (simp add: tokenCount_def)
next
  case (Cons p g)
  obtain para sep where p: "p = (para, sep)" by (cases p)
  have sp: "list_all isSpace sep" using Cons.prems p by simp
  have "tokenCount (chunkOf (p # g)) \<le> tokenCount (para @ sep) + tokenCount (chunkOf g)"
    using tokenCount_append [of "para @ sep" "chunkOf g"] p by simp
  also have "\<dots> \<le> tokenCount para + pwSum g"
    using tokenCount_piece [OF sp, of para] Cons by (simp add: add_mono)
  also have "\<dots> \<le> pwSum (p # g)"
    using tokenCount_le_paraWordCount [of para] p by simp
  finally show ?case .
qed

lemma pwSum_member:
  "(para, sep) \<in> set g \<Longrightarrow> paraWordCount para \<le> pwSum g"
  by (induction g) auto

text \<open>
  C2. The chunks are the texts of consecutive groups of the kept paragraphs (no paragraph
  is cut, none is lost or repeated). A chunk has at most \<open>chunkSize\<close> whitespace-delimited
  tokens unless it is a single paragraph (with its separator) that has more than
  \<open>chunkSize\<close> tokens itself; and a paragraph with more than \<open>chunkSize\<close> tokens is alone
  in its chunk. This holds for every bound, positive or not.
\<close>

theorem splitMarkdown_token_bound:
  "\<exists>groups.
     splitMarkdown content chunkSize = map chunkOf groups
     \<and> concat groups = keptParagraphs content
     \<and> (\<forall>g \<in> set groups.
          g \<noteq> []
          \<and> (int (tokenCount (chunkOf g)) \<le> chunkSize
              \<or> (\<exists>para sep. g = [(para, sep)] \<and> chunkSize < int (tokenCount para)))
          \<and> (\<forall>(para, sep) \<in> set g. chunkSize < int (tokenCount para) \<longrightarrow> g = [(para, sep)]))"
proof -
  obtain groups where
    sm: "splitMarkdown content chunkSize = map chunkOf groups"
    and c: "concat groups = keptParagraphs content"
    and g: "\<forall>g \<in> set groups. g \<noteq> [] \<and> groupOk chunkSize g"
    using splitMarkdown_groups by blast
  have seps: "list_all isSpace sep" if "g \<in> set groups" "(para, sep) \<in> set g" for g para sep
  proof -
    have "(para, sep) \<in> set (concat groups)" using that by auto
    then have "(para, sep) \<in> set (pairUp (splitParagraphs [] content))"
      unfolding c keptParagraphs_def by simp
    then show ?thesis by (rule splitParagraphs_seps)
  qed
  have main: "g \<noteq> []
          \<and> (int (tokenCount (chunkOf g)) \<le> chunkSize
              \<or> (\<exists>para sep. g = [(para, sep)] \<and> chunkSize < int (tokenCount para)))
          \<and> (\<forall>(para, sep) \<in> set g. chunkSize < int (tokenCount para) \<longrightarrow> g = [(para, sep)])"
    if gin: "g \<in> set groups" for g
  proof -
    have ne: "g \<noteq> []" and ok: "groupOk chunkSize g" using g gin by auto
    have sp: "\<forall>(para, sep) \<in> set g. list_all isSpace sep" using seps [OF gin] by auto
    show ?thesis
    proof (cases "int (pwSum g) \<le> chunkSize")
      case True
      have "int (tokenCount (chunkOf g)) \<le> chunkSize"
        using tokenCount_chunkOf [OF sp] True by linarith
      moreover have "\<forall>(para, sep) \<in> set g. \<not> chunkSize < int (tokenCount para)"
      proof -
        have "\<not> chunkSize < int (tokenCount para)" if "(para, sep) \<in> set g" for para sep
          using pwSum_member [OF that] tokenCount_le_paraWordCount [of para] True by linarith
        then show ?thesis by auto
      qed
      ultimately show ?thesis using ne by auto
    next
      case False
      then have "length g \<le> 1" using ok by (simp add: groupOk_def)
      then obtain para sep where gs: "g = [(para, sep)]"
        using ne by (cases g) auto
      have le: "tokenCount (chunkOf g) \<le> tokenCount para"
        using tokenCount_piece [of sep para] sp gs by simp
      show ?thesis using gs le ne by auto
    qed
  qed
  have every: "\<forall>g \<in> set groups. g \<noteq> []
          \<and> (int (tokenCount (chunkOf g)) \<le> chunkSize
              \<or> (\<exists>para sep. g = [(para, sep)] \<and> chunkSize < int (tokenCount para)))
          \<and> (\<forall>(para, sep) \<in> set g. chunkSize < int (tokenCount para) \<longrightarrow> g = [(para, sep)])"
  proof (rule ballI)
    fix g assume "g \<in> set groups"
    then show "g \<noteq> []
          \<and> (int (tokenCount (chunkOf g)) \<le> chunkSize
              \<or> (\<exists>para sep. g = [(para, sep)] \<and> chunkSize < int (tokenCount para)))
          \<and> (\<forall>(para, sep) \<in> set g. chunkSize < int (tokenCount para) \<longrightarrow> g = [(para, sep)])"
      by (rule main)
  qed
  show ?thesis
    by (rule exI [of _ groups], intro conjI) (rule sm c every)+
qed

theorem splitMarkdown_token_bound_witness:
  "splitMarkdown (''a b c d e'' @ [CHR 0x0A, CHR 0x0A] @ ''f'' @ [CHR 0x0A, CHR 0x0A] @ ''g h'') 3
     = [''a b c d e'' @ [CHR 0x0A, CHR 0x0A], ''f'' @ [CHR 0x0A, CHR 0x0A] @ ''g h'']
   \<and> map tokenCount
         (splitMarkdown (''a b c d e'' @ [CHR 0x0A, CHR 0x0A] @ ''f'' @ [CHR 0x0A, CHR 0x0A] @ ''g h'') 3)
       = [5, 3]
   \<and> (\<exists>groups.
         splitMarkdown (''a b c d e'' @ [CHR 0x0A, CHR 0x0A] @ ''f'' @ [CHR 0x0A, CHR 0x0A] @ ''g h'') 3
           = map chunkOf groups
         \<and> concat groups
             = [(''a b c d e'', [CHR 0x0A, CHR 0x0A]), (''f'', [CHR 0x0A, CHR 0x0A]), (''g h'', [])]
         \<and> (\<forall>g \<in> set groups.
              g \<noteq> []
              \<and> (int (tokenCount (chunkOf g)) \<le> 3
                  \<or> (\<exists>para sep. g = [(para, sep)] \<and> 3 < int (tokenCount para)))
              \<and> (\<forall>(para, sep) \<in> set g. 3 < int (tokenCount para) \<longrightarrow> g = [(para, sep)])))"
proof -
  let ?content = "''a b c d e'' @ [CHR 0x0A, CHR 0x0A] @ ''f'' @ [CHR 0x0A, CHR 0x0A] @ ''g h''"
  have sm: "splitMarkdown ?content 3
     = [''a b c d e'' @ [CHR 0x0A, CHR 0x0A], ''f'' @ [CHR 0x0A, CHR 0x0A] @ ''g h'']"
    by code_simp
  have tc: "map tokenCount (splitMarkdown ?content 3) = [5, 3]"
    by code_simp
  have kp: "keptParagraphs ?content
      = [(''a b c d e'', [CHR 0x0A, CHR 0x0A]), (''f'', [CHR 0x0A, CHR 0x0A]), (''g h'', [])]"
    by code_simp
  show ?thesis
    using splitMarkdown_token_bound [of ?content 3] sm tc
    unfolding kp by blast
qed

section \<open>Duplicate file reconciler\<close>

lemma statAll_ok:
  assumes "statError faults = (\<lambda>f. None)" "set g \<subseteq> fst ` set files"
  shows "statAll faults files g = Inr (map (\<lambda>f. (f, the (map_of files f))) g)"
  using assms(2)
proof (induction g)
  case Nil
  then show ?case by simp
next
  case (Cons f g)
  then have "f \<in> fst ` set files" by simp
  then obtain b where "map_of files f = Some b"
    by (metis domD dom_map_of_conv_image_fst)
  then show ?case using Cons assms(1) by (simp add: statFile_def)
qed

lemma sortFilesByAge_ok:
  assumes "statError faults = (\<lambda>f. None)" "set g \<subseteq> fst ` set files"
  shows "sortFilesByAge faults files g = Inr (sortedNames files g)"
  by (simp add: sortFilesByAge_def statAll_ok [OF assms] sortedNames_def)

lemma removeNames_Nil [simp]: "removeNames [] files = files"
  by (simp add: removeNames_def)

lemma removeNames_removeNames:
  "removeNames ys (removeNames xs files) = removeNames (xs @ ys) files"
  by (induction files) (auto simp: removeNames_def)

lemma names_removeNames:
  "fst ` set (removeNames fs files) = fst ` set files - set fs"
  by (auto simp: removeNames_def image_iff)

lemma deleteDuplicates_result:
  assumes "distinct fs" "set fs \<subseteq> fst ` set (dirFiles d)"
  shows "deleteDuplicates faults fs d =
     (d\<lparr> dirFiles := removeNames (takeWhile (unlinkOk faults) fs) (dirFiles d),
         dirLog := dirLog d @ deletedLog (takeWhile (unlinkOk faults) fs) \<rparr>,
      firstFailure faults fs)"
  using assms
proof (induction fs arbitrary: d)
  case Nil
  then show ?case by (simp add: firstFailure_def deletedLog_def)
next
  case (Cons f fs)
  show ?case
  proof (cases "unlinkError faults f")
    case (Some e)
    then show ?thesis
      by (simp add: unlinkFile_def unlinkOk_def firstFailure_def deletedLog_def)
  next
    case None
    let ?d1 = "d\<lparr> dirFiles := removeNames [f] (dirFiles d),
                 dirLog := dirLog d @ [LogInfo (''Deleted duplicate file: '' @ f)] \<rparr>"
    have fin: "f \<in> fst ` set (dirFiles d)" using Cons.prems(2) by simp
    have un: "unlinkFile faults (dirFiles d) f = Inr (removeNames [f] (dirFiles d))"
      using None fin by (simp add: unlinkFile_def removeNames_def)
    have d1: "distinct fs" using Cons.prems(1) by simp
    have s1: "set fs \<subseteq> fst ` set (dirFiles ?d1)"
      using Cons.prems by (auto simp: names_removeNames)
    have step: "deleteDuplicates faults (f # fs) d = deleteDuplicates faults fs ?d1"
      using un by simp
    have ok: "unlinkOk faults f" using None by (simp add: unlinkOk_def)
    show ?thesis
      unfolding step Cons.IH [OF d1 s1]
      using ok
      by (simp add: firstFailure_def deletedLog_def removeNames_removeNames)
  qed
qed

lemma map_of_removeNames:
  "f \<notin> set fs \<Longrightarrow> map_of (removeNames fs files) f = map_of files f"
  by (induction files) (auto simp: removeNames_def)

lemma sortedNames_removeNames:
  "set g \<inter> set fs = {} \<Longrightarrow> sortedNames (removeNames fs files) g = sortedNames files g"
proof -
  assume "set g \<inter> set fs = {}"
  then have "\<And>x. x \<in> set g \<Longrightarrow> map_of (removeNames fs files) x = map_of files x"
    by (intro map_of_removeNames) auto
  then have eq: "map (\<lambda>f. (f, the (map_of (removeNames fs files) f))) g
      = map (\<lambda>f. (f, the (map_of files f))) g"
    by (intro map_cong [OF refl]) simp
  show ?thesis unfolding sortedNames_def eq by (rule refl)
qed

lemma set_sortedNames: "set (sortedNames files g) = set g"
  by (auto simp: sortedNames_def image_iff)

lemma distinct_sortedNames: "distinct g \<Longrightarrow> distinct (sortedNames files g)"
proof -
  assume d: "distinct g"
  have "map fst (map (\<lambda>f. (f, the (map_of files f))) g) = g" by (simp add: comp_def)
  then have "distinct (map fst (map (\<lambda>f. (f, the (map_of files f))) g))" using d by simp
  then show ?thesis
    unfolding sortedNames_def by (simp only: distinct_map distinct_sort set_sort) 
qed

lemma scheduleOf_removeNames:
  "set (concat (map snd groups)) \<inter> set fs = {} \<Longrightarrow>
     scheduleOf (removeNames fs files) groups = scheduleOf files groups"
proof (induction groups)
  case Nil
  then show ?case by (simp add: scheduleOf_def)
next
  case (Cons kg groups)
  obtain k g where kg: "kg = (k, g)" by (cases kg)
  have "set g \<inter> set fs = {}" using Cons.prems kg by auto
  then have "sortedNames (removeNames fs files) g = sortedNames files g"
    by (rule sortedNames_removeNames)
  moreover have "scheduleOf (removeNames fs files) groups = scheduleOf files groups"
    using Cons by auto
  ultimately show ?case using kg by (simp add: scheduleOf_def)
qed

lemma takeWhile_append_all:
  "\<forall>x \<in> set xs. P x \<Longrightarrow> takeWhile P (xs @ ys) = xs @ takeWhile P ys"
  by (induction xs) auto

lemma firstFailure_append:
  "firstFailure faults (xs @ ys) =
     (if \<forall>x \<in> set xs. unlinkOk faults x then firstFailure faults ys else firstFailure faults xs)"
proof (induction xs)
  case Nil
  then show ?case by simp
next
  case (Cons x xs)
  then show ?case by (auto simp: firstFailure_def)
qed

lemma firstFailure_None_iff:
  "firstFailure faults xs = None \<longleftrightarrow> (\<forall>x \<in> set xs. unlinkOk faults x)"
proof (induction xs)
  case Nil
  then show ?case by (simp add: firstFailure_def)
next
  case (Cons x xs)
  then show ?case by (auto simp: firstFailure_def unlinkOk_def)
qed

lemma processGroups_result:
  assumes "statError faults = (\<lambda>f. None)"
    "distinct (concat (map snd groups))"
    "set (concat (map snd groups)) \<subseteq> fst ` set (dirFiles d)"
  shows "processGroups faults groups d =
     (d\<lparr> dirFiles :=
           removeNames (takeWhile (unlinkOk faults) (scheduleOf (dirFiles d) groups)) (dirFiles d),
         dirLog :=
           dirLog d @ deletedLog (takeWhile (unlinkOk faults) (scheduleOf (dirFiles d) groups)) \<rparr>,
      firstFailure faults (scheduleOf (dirFiles d) groups))"
  using assms(2,3)
proof (induction groups arbitrary: d)
  case Nil
  then show ?case by (simp add: scheduleOf_def firstFailure_def deletedLog_def)
next
  case (Cons kg groups)
  obtain k g where kg: "kg = (k, g)" by (cases kg)
  have dg: "distinct g" and drest: "distinct (concat (map snd groups))"
    and disj: "set g \<inter> set (concat (map snd groups)) = {}"
    using Cons.prems(1) kg by auto
  have sg: "set g \<subseteq> fst ` set (dirFiles d)"
    and srest: "set (concat (map snd groups)) \<subseteq> fst ` set (dirFiles d)"
    using Cons.prems(2) kg by auto
  show ?case
  proof (cases "length g > 1")
    case False
    then have "scheduleOf (dirFiles d) (kg # groups) = scheduleOf (dirFiles d) groups"
      using kg by (simp add: scheduleOf_def)
    then show ?thesis using False kg Cons.IH [OF drest srest] by simp
  next
    case True
    let ?v = "drop 1 (sortedNames (dirFiles d) g)"
    have sch: "scheduleOf (dirFiles d) (kg # groups) = ?v @ scheduleOf (dirFiles d) groups"
      using True kg by (simp add: scheduleOf_def)
    have dv: "distinct ?v" using distinct_sortedNames [OF dg] by simp
    have vg: "set ?v \<subseteq> set g"
      using set_sortedNames [of "dirFiles d" g] by (metis set_drop_subset)
    have sv: "set ?v \<subseteq> fst ` set (dirFiles d)" using vg sg by blast
    have dd: "deleteDuplicates faults ?v d =
       (d\<lparr> dirFiles := removeNames (takeWhile (unlinkOk faults) ?v) (dirFiles d),
           dirLog := dirLog d @ deletedLog (takeWhile (unlinkOk faults) ?v) \<rparr>,
        firstFailure faults ?v)"
      by (rule deleteDuplicates_result [OF dv sv])
    have sort: "sortFilesByAge faults (dirFiles d) g = Inr (sortedNames (dirFiles d) g)"
      by (rule sortFilesByAge_ok [OF assms(1) sg])
    show ?thesis
    proof (cases "\<forall>x \<in> set ?v. unlinkOk faults x")
      case allok: True
      then have tw: "takeWhile (unlinkOk faults) ?v = ?v" by simp
      have ff: "firstFailure faults ?v = None" using allok by (simp add: firstFailure_None_iff)
      let ?d1 = "d\<lparr> dirFiles := removeNames ?v (dirFiles d),
                   dirLog := dirLog d @ deletedLog ?v \<rparr>"
      have dd1: "deleteDuplicates faults ?v d = (?d1, None)"
        using dd unfolding tw ff .
      have step: "processGroups faults (kg # groups) d = processGroups faults groups ?d1"
        using kg True sort dd1 by simp
      have disjv: "set (concat (map snd groups)) \<inter> set ?v = {}" using vg disj by blast
      have srest1: "set (concat (map snd groups)) \<subseteq> fst ` set (dirFiles ?d1)"
        using srest disjv by (auto simp: names_removeNames)
      have sch1: "scheduleOf (dirFiles ?d1) groups = scheduleOf (dirFiles d) groups"
        using scheduleOf_removeNames [OF disjv] by simp
      have tw2: "takeWhile (unlinkOk faults) (?v @ scheduleOf (dirFiles d) groups)
          = ?v @ takeWhile (unlinkOk faults) (scheduleOf (dirFiles d) groups)"
        by (rule takeWhile_append_all [OF allok])
      show ?thesis
        unfolding step Cons.IH [OF drest srest1] sch sch1 tw2
        using allok
        by (simp add: removeNames_removeNames deletedLog_def firstFailure_append)
    next
      case notall: False
      then have ff: "firstFailure faults ?v \<noteq> None" by (simp add: firstFailure_None_iff)
      then obtain e where e: "firstFailure faults ?v = Some e" by auto
      have step: "processGroups faults (kg # groups) d =
         (d\<lparr> dirFiles := removeNames (takeWhile (unlinkOk faults) ?v) (dirFiles d),
             dirLog := dirLog d @ deletedLog (takeWhile (unlinkOk faults) ?v) \<rparr>, Some e)"
        using kg True sort dd e by simp
      from notall obtain x where x: "x \<in> set ?v" "\<not> unlinkOk faults x" by blast
      have tw2: "takeWhile (unlinkOk faults) (?v @ scheduleOf (dirFiles d) groups)
          = takeWhile (unlinkOk faults) ?v"
        using x by (rule takeWhile_append1 [where P = "unlinkOk faults"])
      have ffa: "firstFailure faults (?v @ scheduleOf (dirFiles d) groups) = Some e"
        by (simp only: firstFailure_append notall if_False e)
      show ?thesis
        unfolding step sch tw2 ffa by (rule refl)
    qed
  qed
qed

lemma addToGroup_keys:
  "fst ` set (addToGroup groups k f) = insert k (fst ` set groups)"
  by (induction groups k f rule: addToGroup.induct) auto

lemma addToGroup_old:
  "k \<in> fst ` set groups \<Longrightarrow> distinct (map fst groups) \<Longrightarrow>
     set (addToGroup groups k f) =
       (\<lambda>(k', g). if k' = k then (k', g @ [f]) else (k', g)) ` set groups"
proof (induction groups k f rule: addToGroup.induct)
  case (1 nm fl)
  then show ?case by simp
next
  case (2 k' fls groups nm fl)
  show ?case
  proof (cases "k' = nm")
    case True
    then have "nm \<notin> fst ` set groups" using 2(3) by simp
    then have "\<forall>(k'', g) \<in> set groups. k'' \<noteq> nm" by force
    then have "(\<lambda>(k', g). if k' = nm then (k', g @ [fl]) else (k', g)) ` set groups
        = set groups"
      by (auto simp: image_iff split: prod.splits) force
    then show ?thesis using True by simp
  next
    case False
    then show ?thesis using 2 by auto
  qed
qed

lemma addToGroup_new:
  "k \<notin> fst ` set groups \<Longrightarrow> addToGroup groups k f = groups @ [(k, [f])]"
  by (induction groups k f rule: addToGroup.induct) auto

lemma addToGroup_distinct:
  "distinct (map fst groups) \<Longrightarrow> distinct (map fst (addToGroup groups k f))"
proof (induction groups k f rule: addToGroup.induct)
  case (1 nm fl)
  then show ?case by simp
next
  case (2 k' fls groups nm fl)
  then show ?case using addToGroup_keys [of groups nm fl] by auto
qed

lemma groupsOf_step:
  assumes "groupsOf groups xs"
  shows "groupsOf (addToGroup groups (normalizeFileName x) x) (xs @ [x])"
proof -
  let ?k = "normalizeFileName x"
  from assms have d: "distinct (map fst groups)"
    and g: "\<forall>(k, g) \<in> set groups. g \<noteq> [] \<and> g = filter (\<lambda>f. normalizeFileName f = k) xs"
    and c: "\<forall>x \<in> set xs. normalizeFileName x \<in> fst ` set groups"
    by (auto simp: groupsOf_def)
  have d': "distinct (map fst (addToGroup groups ?k x))" by (rule addToGroup_distinct [OF d])
  have c': "\<forall>y \<in> set (xs @ [x]). normalizeFileName y \<in> fst ` set (addToGroup groups ?k x)"
    using c by (auto simp: addToGroup_keys)
  have g': "\<forall>(k, g) \<in> set (addToGroup groups ?k x).
      g \<noteq> [] \<and> g = filter (\<lambda>f. normalizeFileName f = k) (xs @ [x])"
  proof (cases "?k \<in> fst ` set groups")
    case True
    show ?thesis
      unfolding addToGroup_old [OF True d] using g by (auto split: if_splits)
  next
    case False
    have "\<And>y. y \<in> set xs \<Longrightarrow> normalizeFileName y \<noteq> ?k"
      using c False by metis
    then have "filter (\<lambda>f. normalizeFileName f = ?k) xs = []"
      by (simp add: filter_empty_conv)
    then show ?thesis
      unfolding addToGroup_new [OF False] using g False by (auto simp: image_iff)
  qed
  show ?thesis using d' g' c' by (simp add: groupsOf_def)
qed

lemma groupsOf_foldl:
  "groupsOf groups xs \<Longrightarrow>
     groupsOf (foldl (\<lambda>groups file. addToGroup groups (normalizeFileName file) file) groups ys)
       (xs @ ys)"
proof (induction ys arbitrary: groups xs)
  case Nil
  then show ?case by simp
next
  case (Cons y ys)
  from Cons.IH [OF groupsOf_step [OF Cons.prems, of y]]
  show ?case by simp
qed

lemma groupsOf_groupFiles: "groupsOf (groupFiles mdFiles) mdFiles"
proof -
  have "groupsOf [] []" by (simp add: groupsOf_def)
  from groupsOf_foldl [OF this, of mdFiles] show ?thesis by (simp add: groupFiles_def)
qed

lemma groupsOf_set:
  assumes "groupsOf groups xs"
  shows "set (concat (map snd groups)) = set xs"
proof
  show "set (concat (map snd groups)) \<subseteq> set xs"
    using assms by (fastforce simp: groupsOf_def)
next
  show "set xs \<subseteq> set (concat (map snd groups))"
  proof
    fix x assume x: "x \<in> set xs"
    then have "normalizeFileName x \<in> fst ` set groups" using assms by (simp add: groupsOf_def)
    then obtain g where kg: "(normalizeFileName x, g) \<in> set groups" by auto
    then have "g = filter (\<lambda>f. normalizeFileName f = normalizeFileName x) xs"
      using assms by (auto simp: groupsOf_def)
    then have "x \<in> set g" using x by simp
    then show "x \<in> set (concat (map snd groups))" using kg by force
  qed
qed

lemma groupsOf_distinct_aux:
  "distinct (map fst groups) \<Longrightarrow> distinct xs \<Longrightarrow>
     \<forall>(k, g) \<in> set groups. g = filter (\<lambda>f. normalizeFileName f = k) xs \<Longrightarrow>
     distinct (concat (map snd groups))"
proof (induction groups)
  case Nil
  then show ?case by simp
next
  case (Cons kg groups)
  obtain k g where kg: "kg = (k, g)" by (cases kg)
  have g: "g = filter (\<lambda>f. normalizeFileName f = k) xs" using Cons.prems(3) kg by simp
  have "distinct g" using g Cons.prems(2) by simp
  moreover have "distinct (concat (map snd groups))" using Cons by auto
  moreover have "set g \<inter> set (concat (map snd groups)) = {}"
  proof -
    have "\<And>f k' g'. (k', g') \<in> set groups \<Longrightarrow> f \<in> set g' \<Longrightarrow> f \<notin> set g"
    proof -
      fix f k' g' assume a: "(k', g') \<in> set groups" "f \<in> set g'"
      then have "g' = filter (\<lambda>f. normalizeFileName f = k') xs" using Cons.prems(3) by auto
      then have "normalizeFileName f = k'" using a(2) by simp
      moreover have "k' \<noteq> k" using Cons.prems(1) kg a(1) by force
      ultimately show "f \<notin> set g" using g by simp
    qed
    then show ?thesis by fastforce
  qed
  ultimately show ?case using kg by simp
qed

lemma groupsOf_distinct:
  "groupsOf groups xs \<Longrightarrow> distinct xs \<Longrightarrow> distinct (concat (map snd groups))"
  using groupsOf_distinct_aux [of groups xs] by (auto simp: groupsOf_def)

lemma deletionSchedule_scheduleOf:
  "deletionSchedule files = scheduleOf files (groupFiles (mdNames files))"
  by (simp add: deletionSchedule_def scheduleOf_def mdNames_def)

lemma cleanDuplicateFiles_result:
  assumes "readdirError faults = None" "statError faults = (\<lambda>f. None)"
    "distinct (map fst (dirFiles d))"
  shows "cleanDuplicateFiles faults d =
     d\<lparr> dirFiles :=
          removeNames (takeWhile (unlinkOk faults) (deletionSchedule (dirFiles d))) (dirFiles d),
        dirLog :=
          dirLog d @ deletedLog (takeWhile (unlinkOk faults) (deletionSchedule (dirFiles d)))
            @ (case firstFailure faults (deletionSchedule (dirFiles d)) of
                 None \<Rightarrow> []
               | Some e \<Rightarrow> [LogError (''Failed to clean duplicates: '' @ errorString e)]) \<rparr>"
proof -
  let ?groups = "groupFiles (mdNames (dirFiles d))"
  have go: "groupsOf ?groups (mdNames (dirFiles d))" by (rule groupsOf_groupFiles)
  have dm: "distinct (mdNames (dirFiles d))" using assms(3) by (simp add: mdNames_def)
  have dc: "distinct (concat (map snd ?groups))" by (rule groupsOf_distinct [OF go dm])
  have sc: "set (concat (map snd ?groups)) \<subseteq> fst ` set (dirFiles d)"
    unfolding groupsOf_set [OF go] by (auto simp: mdNames_def)
  note pg = processGroups_result [OF assms(2) dc sc]
  show ?thesis
    unfolding cleanDuplicateFiles_def Let_def deletionSchedule_scheduleOf
    using assms(1) pg
    by (cases "firstFailure faults (scheduleOf (dirFiles d) ?groups)")
       (simp_all add: mdNames_def)
qed

lemma hd_insort_key:
  "hd (insort_key f x ys) = (if ys = [] \<or> f x \<le> f (hd ys) then x else hd ys)"
  by (cases ys) auto

lemma sort_key_nonempty: "xs \<noteq> [] \<Longrightarrow> sort_key f xs \<noteq> []"
  by (metis length_0_conv length_sort)

lemma hd_sort_earliest: "xs \<noteq> [] \<Longrightarrow> hd (sort_key snd xs) = earliest xs"
proof (induction xs rule: earliest.induct)
  case 1
  then show ?case by simp
next
  case (2 x)
  then show ?case by simp
next
  case (3 x y ys)
  have ne: "sort_key snd (y # ys) \<noteq> []" by (rule sort_key_nonempty) simp
  have ih: "hd (sort_key snd (y # ys)) = earliest (y # ys)" using 3 by simp
  have "hd (sort_key snd (x # y # ys)) = hd (insort_key snd x (sort_key snd (y # ys)))"
    by simp
  also have "\<dots> = (if snd x \<le> snd (hd (sort_key snd (y # ys))) then x
                     else hd (sort_key snd (y # ys)))"
    using ne by (simp only: hd_insort_key if_False simp_thms)
  finally show ?case unfolding ih by (simp add: Let_def)
qed

lemma filter_unique:
  "distinct xs \<Longrightarrow> x \<in> set xs \<Longrightarrow> (\<And>y. y \<in> set xs \<Longrightarrow> P y \<longleftrightarrow> y = x) \<Longrightarrow>
     filter P xs = [x]"
proof (induction xs)
  case Nil
  then show ?case by simp
next
  case (Cons a xs)
  show ?case
  proof (cases "a = x")
    case True
    have "\<And>y. y \<in> set xs \<Longrightarrow> \<not> P y" using Cons.prems True by auto
    then have "filter P xs = []" by (simp add: filter_empty_conv)
    moreover have "P a" using Cons.prems(3) [of a] True by simp
    ultimately show ?thesis using True by simp
  next
    case False
    then have "\<not> P a" using Cons.prems(3) [of a] by simp
    moreover have "filter P xs = [x]" using Cons False by auto
    ultimately show ?thesis by simp
  qed
qed

lemma keep_head_of_sorted:
  assumes "distinct (map fst es)" "es \<noteq> []"
  shows "filter (\<lambda>(name, birthtime). name \<notin> set (drop 1 (map fst (sort_key snd es)))) es
     = [earliest es]"
proof -
  let ?S = "sort_key snd es"
  have Sne: "?S \<noteq> []" by (rule sort_key_nonempty [OF assms(2)])
  have dS: "distinct (map fst ?S)"
    using assms(1) by (simp only: distinct_map distinct_sort set_sort)
  have hdS: "hd ?S = earliest es" by (rule hd_sort_earliest [OF assms(2)])
  have S: "?S = hd ?S # tl ?S" using Sne by simp
  have names: "map fst ?S = fst (hd ?S) # map fst (tl ?S)" using Sne by (metis S list.simps(9))
  have notin: "fst (hd ?S) \<notin> set (map fst (tl ?S))" using dS names by (metis distinct.simps(2))
  have dr: "drop 1 (map fst ?S) = map fst (tl ?S)" by (simp add: drop_Suc map_tl)
  have mem: "hd ?S \<in> set es" using Sne by (metis hd_in_set set_sort)
  have des: "distinct es" using assms(1) by (simp add: distinct_map)
  have "filter (\<lambda>(name, birthtime). name \<notin> set (drop 1 (map fst ?S))) es = [hd ?S]"
  proof (rule filter_unique [OF des mem])
    fix y assume y: "y \<in> set es"
    then have "y \<in> set ?S" by simp
    then have yc: "y = hd ?S \<or> y \<in> set (tl ?S)" using S by (metis set_ConsD)
    show "(case y of (name, birthtime) \<Rightarrow> name \<notin> set (drop 1 (map fst ?S))) \<longleftrightarrow> y = hd ?S"
    proof
      assume a: "case y of (name, birthtime) \<Rightarrow> name \<notin> set (drop 1 (map fst ?S))"
      then have "fst y \<notin> set (map fst (tl ?S))" unfolding dr by (simp add: split_beta)
      then have "y \<notin> set (tl ?S)" by auto
      then show "y = hd ?S" using yc by blast
    next
      assume yh: "y = hd ?S"
      have "fst y \<notin> set (map fst (tl ?S))" unfolding yh by (rule notin)
      then show "case y of (name, birthtime) \<Rightarrow> name \<notin> set (drop 1 (map fst ?S))"
        unfolding dr by (simp add: split_beta)
    qed
  qed
  then show ?thesis unfolding hdS .
qed

lemma map_of_entry:
  "distinct (map fst files) \<Longrightarrow> (n, b) \<in> set files \<Longrightarrow> map_of files n = Some b"
  by simp

lemma sortedNames_entries:
  assumes "distinct (map fst files)" "set es \<subseteq> set files"
  shows "sortedNames files (map fst es) = map fst (sort_key snd es)"
proof -
  have "map (\<lambda>f. (f, the (map_of files f))) (map fst es) = es"
  proof -
    have "\<And>e. e \<in> set es \<Longrightarrow> (fst e, the (map_of files (fst e))) = e"
    proof -
      fix e assume "e \<in> set es"
      then have "(fst e, snd e) \<in> set files" using assms(2) by auto
      then have "map_of files (fst e) = Some (snd e)" using assms(1) by simp
      then show "(fst e, the (map_of files (fst e))) = e" by simp
    qed
    then show ?thesis by (simp add: map_idI comp_def)
  qed
  then show ?thesis by (simp only: sortedNames_def)
qed

lemma entries_names:
  "map fst (filter (sameGroup k) files)
     = filter (\<lambda>f. normalizeFileName f = k) (mdNames files)"
  by (induction files) (auto simp: sameGroup_def mdNames_def)

lemma schedule_member:
  assumes go: "groupsOf groups xs" and n: "normalizeFileName n = k" and nx: "n \<in> set xs"
  shows "n \<in> set (scheduleOf files groups)
     \<longleftrightarrow> n \<in> set (drop 1 (sortedNames files (filter (\<lambda>f. normalizeFileName f = k) xs)))"
proof
  assume "n \<in> set (scheduleOf files groups)"
  then obtain k' g' where kg: "(k', g') \<in> set groups" "length g' > 1"
      "n \<in> set (drop 1 (sortedNames files g'))"
    by (auto simp: scheduleOf_def split: if_splits)
  have g': "g' = filter (\<lambda>f. normalizeFileName f = k') xs"
    using go kg(1) by (auto simp: groupsOf_def)
  have "n \<in> set (sortedNames files g')" using kg(3) by (metis in_set_dropD)
  then have "n \<in> set g'" by (simp add: set_sortedNames)
  then have "k' = k" using g' n by simp
  then show "n \<in> set (drop 1 (sortedNames files (filter (\<lambda>f. normalizeFileName f = k) xs)))"
    using kg(3) g' by simp
next
  let ?g = "filter (\<lambda>f. normalizeFileName f = k) xs"
  assume a: "n \<in> set (drop 1 (sortedNames files ?g))"
  have "k \<in> fst ` set groups" using go n nx by (auto simp: groupsOf_def)
  then obtain g' where kg: "(k, g') \<in> set groups" by auto
  then have g': "g' = ?g" using go by (auto simp: groupsOf_def)
  have len: "length ?g > 1"
  proof (rule ccontr)
    assume "\<not> length ?g > 1"
    then have "length (sortedNames files ?g) \<le> 1" by (simp add: sortedNames_def)
    then have "drop 1 (sortedNames files ?g) = []" by simp
    then show False using a by simp
  qed
  show "n \<in> set (scheduleOf files groups)"
    unfolding scheduleOf_def using kg g' len a by force
qed

lemma filter_removeNames:
  "filter P (removeNames V files) = filter (\<lambda>(name, birthtime). name \<notin> set V) (filter P files)"
  by (induction files) (auto simp: removeNames_def)

lemma all_unlinkOk_noFaults: "unlinkOk noFaults f"
  by (simp add: unlinkOk_def noFaults_def)

lemma cleanDuplicateFiles_noFaults:
  assumes "distinct (map fst (dirFiles d))"
  shows "dirFiles (cleanDuplicateFiles noFaults d)
     = removeNames (deletionSchedule (dirFiles d)) (dirFiles d)"
proof -
  have tw: "takeWhile (unlinkOk noFaults) (deletionSchedule (dirFiles d))
      = deletionSchedule (dirFiles d)"
    by (simp add: all_unlinkOk_noFaults)
  have r: "readdirError noFaults = None" "statError noFaults = (\<lambda>f. None)"
    by (simp_all add: noFaults_def)
  show ?thesis
    unfolding cleanDuplicateFiles_result [OF r assms] tw by simp
qed

lemma survivors_of_group:
  assumes d: "distinct (map fst files)" and ne: "filter (sameGroup k) files \<noteq> []"
  shows "filter (sameGroup k) (removeNames (deletionSchedule files) files)
     = [earliest (filter (sameGroup k) files)]"
proof -
  let ?E = "filter (sameGroup k) files"
  let ?g = "filter (\<lambda>f. normalizeFileName f = k) (mdNames files)"
  have go: "groupsOf (groupFiles (mdNames files)) (mdNames files)" by (rule groupsOf_groupFiles)
  have gE: "map fst ?E = ?g" by (rule entries_names)
  have sn: "sortedNames files ?g = map fst (sort_key snd ?E)"
    using sortedNames_entries [OF d, of ?E] gE by simp
  have dE: "distinct (map fst ?E)" using d by (simp add: distinct_map_filter)
  have "filter (sameGroup k) (removeNames (deletionSchedule files) files)
      = filter (\<lambda>(name, birthtime). name \<notin> set (deletionSchedule files)) ?E"
    by (rule filter_removeNames)
  also have "\<dots> = filter (\<lambda>(name, birthtime). name \<notin> set (drop 1 (map fst (sort_key snd ?E)))) ?E"
  proof (rule filter_cong [OF refl])
    fix e assume e: "e \<in> set ?E"
    obtain n b where nb: "e = (n, b)" by (cases e)
    have nk: "normalizeFileName n = k" and md: "endsWith n ''.md''" and inf: "(n, b) \<in> set files"
      using e nb by (auto simp: sameGroup_def)
    have nx: "n \<in> set (mdNames files)" using md inf by (force simp: mdNames_def)
    have "n \<in> set (deletionSchedule files)
        \<longleftrightarrow> n \<in> set (drop 1 (map fst (sort_key snd ?E)))"
      unfolding deletionSchedule_scheduleOf schedule_member [OF go nk nx] sn ..
    then show "(case e of (name, birthtime) \<Rightarrow> name \<notin> set (deletionSchedule files))
        = (case e of (name, birthtime) \<Rightarrow> name \<notin> set (drop 1 (map fst (sort_key snd ?E))))"
      using nb by simp
  qed
  also have "\<dots> = [earliest ?E]" by (rule keep_head_of_sorted [OF dE ne])
  finally show ?thesis .
qed

lemma schedule_md: "n \<in> set (deletionSchedule files) \<Longrightarrow> endsWith n ''.md''"
proof -
  assume "n \<in> set (deletionSchedule files)"
  then obtain k' g' where kg: "(k', g') \<in> set (groupFiles (mdNames files))"
      "n \<in> set (drop 1 (sortedNames files g'))"
    by (auto simp: deletionSchedule_scheduleOf scheduleOf_def split: if_splits)
  have "n \<in> set (sortedNames files g')" using kg(2) by (metis in_set_dropD)
  then have "n \<in> set g'" by (simp add: set_sortedNames)
  then have "n \<in> set (concat (map snd (groupFiles (mdNames files))))" using kg(1) by force
  moreover have "set (concat (map snd (groupFiles (mdNames files)))) = set (mdNames files)"
    by (rule groupsOf_set [OF groupsOf_groupFiles])
  ultimately have "n \<in> set (mdNames files)" by blast
  then show ?thesis by (simp add: mdNames_def)
qed

lemma removeNames_others:
  "\<forall>n \<in> set V. endsWith n ''.md'' \<Longrightarrow>
     filter (\<lambda>(name, birthtime). \<not> endsWith name ''.md'') (removeNames V files)
       = filter (\<lambda>(name, birthtime). \<not> endsWith name ''.md'') files"
  by (induction files) (auto simp: removeNames_def)

lemma others_untouched:
  "filter (\<lambda>(name, birthtime). \<not> endsWith name ''.md'') (removeNames (deletionSchedule files) files)
     = filter (\<lambda>(name, birthtime). \<not> endsWith name ''.md'') files"
  by (rule removeNames_others) (use schedule_md in blast)

text \<open>
  C8 as stated, on the three files: exactly one file remains. It does not: the digit of
  \<open>NOTE (1).md\<close> is alphanumeric and stays in the key, so that file is in a group of its
  own and remains beside the earlier of the other two.
\<close>

theorem cleanDuplicateFiles_three_files_counterexample:
  "dirFiles (cleanDuplicateFiles noFaults
      \<lparr> dirFiles = [(''note.md'', 30), (''Note.md'', 10), (''NOTE (1).md'', 20)], dirLog = [] \<rparr>)
     = [(''Note.md'', 10), (''NOTE (1).md'', 20)]
   \<and> length (dirFiles (cleanDuplicateFiles noFaults
      \<lparr> dirFiles = [(''note.md'', 30), (''Note.md'', 10), (''NOTE (1).md'', 20)], dirLog = [] \<rparr>))
       \<noteq> 1
   \<and> normalizeFileName ''NOTE (1).md'' = ''note1''
   \<and> normalizeFileName ''note.md'' = ''note''"
  by code_simp

lemma three_groups:
  "groupFiles [''note.md'', ''Note.md'', ''NOTE (1).md'']
     = [(''note'', [''note.md'', ''Note.md'']), (''note1'', [''NOTE (1).md''])]"
  by code_simp

lemma three_files_result:
  "dirFiles (cleanDuplicateFiles noFaults
      \<lparr> dirFiles = [(''note.md'', t1), (''Note.md'', t2), (''NOTE (1).md'', t3)], dirLog = [] \<rparr>)
     = [if t1 \<le> t2 then (''note.md'', t1) else (''Note.md'', t2), (''NOTE (1).md'', t3)]"
proof -
  let ?files = "[(''note.md'', t1), (''Note.md'', t2), (''NOTE (1).md'', t3)]"
  have md: "filter (\<lambda>f. endsWith f ''.md'') (map fst ?files)
      = [''note.md'', ''Note.md'', ''NOTE (1).md'']"
    by (simp add: endsWith_def)
  have sch: "deletionSchedule ?files = (if t1 \<le> t2 then [''Note.md''] else [''note.md''])"
    unfolding deletionSchedule_def md three_groups
    by (simp add: sortedNames_def)
  have d: "distinct (map fst (dirFiles \<lparr> dirFiles = ?files, dirLog = [] \<rparr>))" by simp
  show ?thesis
    unfolding cleanDuplicateFiles_noFaults [OF d]
    by (simp add: sch removeNames_def)
qed

text \<open>
  C8, amended. In a directory with distinct names and no failing call, the reconciler
  leaves of every group of markdown files with the same key exactly its first entry with
  the least creation time, leaves the other files alone and creates none. Of
  \<open>note.md\<close>, \<open>Note.md\<close> and \<open>NOTE (1).md\<close> two files remain: the earlier of the first
  two (the first listed on a tie) and \<open>NOTE (1).md\<close>.
\<close>

theorem cleanDuplicateFiles_keeps_earliest:
  "(distinct (map fst (dirFiles d)) \<longrightarrow>
      (\<forall>k. filter (sameGroup k) (dirFiles d) \<noteq> [] \<longrightarrow>
           filter (sameGroup k) (dirFiles (cleanDuplicateFiles noFaults d))
             = [earliest (filter (sameGroup k) (dirFiles d))])
      \<and> filter (\<lambda>(name, birthtime). \<not> endsWith name ''.md'')
            (dirFiles (cleanDuplicateFiles noFaults d))
          = filter (\<lambda>(name, birthtime). \<not> endsWith name ''.md'') (dirFiles d)
      \<and> set (dirFiles (cleanDuplicateFiles noFaults d)) \<subseteq> set (dirFiles d))
   \<and> dirFiles (cleanDuplicateFiles noFaults
        \<lparr> dirFiles = [(''note.md'', t1), (''Note.md'', t2), (''NOTE (1).md'', t3)], dirLog = [] \<rparr>)
       = [if t1 \<le> t2 then (''note.md'', t1) else (''Note.md'', t2), (''NOTE (1).md'', t3)]"
proof -
  have general: "(\<forall>k. filter (sameGroup k) (dirFiles d) \<noteq> [] \<longrightarrow>
           filter (sameGroup k) (dirFiles (cleanDuplicateFiles noFaults d))
             = [earliest (filter (sameGroup k) (dirFiles d))])
      \<and> filter (\<lambda>(name, birthtime). \<not> endsWith name ''.md'')
            (dirFiles (cleanDuplicateFiles noFaults d))
          = filter (\<lambda>(name, birthtime). \<not> endsWith name ''.md'') (dirFiles d)
      \<and> set (dirFiles (cleanDuplicateFiles noFaults d)) \<subseteq> set (dirFiles d)"
    if dist: "distinct (map fst (dirFiles d))"
  proof (intro conjI allI impI)
    fix k assume "filter (sameGroup k) (dirFiles d) \<noteq> []"
    then show "filter (sameGroup k) (dirFiles (cleanDuplicateFiles noFaults d))
             = [earliest (filter (sameGroup k) (dirFiles d))]"
      unfolding cleanDuplicateFiles_noFaults [OF dist] by (rule survivors_of_group [OF dist])
  next
    show "filter (\<lambda>(name, birthtime). \<not> endsWith name ''.md'')
            (dirFiles (cleanDuplicateFiles noFaults d))
          = filter (\<lambda>(name, birthtime). \<not> endsWith name ''.md'') (dirFiles d)"
      unfolding cleanDuplicateFiles_noFaults [OF dist] by (rule others_untouched)
  next
    show "set (dirFiles (cleanDuplicateFiles noFaults d)) \<subseteq> set (dirFiles d)"
      unfolding cleanDuplicateFiles_noFaults [OF dist] by (auto simp: removeNames_def)
  qed
  show ?thesis using general three_files_result by blast
qed

theorem cleanDuplicateFiles_keeps_earliest_witness:
  "distinct (map fst [(''note.md'', 30), (''Note.md'', 10::int), (''NOTE (1).md'', 20)])
   \<and> filter (sameGroup ''note'') [(''note.md'', 30), (''Note.md'', 10), (''NOTE (1).md'', 20)] \<noteq> []
   \<and> filter (sameGroup ''note'')
        (dirFiles (cleanDuplicateFiles noFaults
           \<lparr> dirFiles = [(''note.md'', 30), (''Note.md'', 10), (''NOTE (1).md'', 20)], dirLog = [] \<rparr>))
       = [(''Note.md'', 10)]
   \<and> filter (sameGroup ''note1'')
        (dirFiles (cleanDuplicateFiles noFaults
           \<lparr> dirFiles = [(''note.md'', 30), (''Note.md'', 10), (''NOTE (1).md'', 20)], dirLog = [] \<rparr>))
       = [(''NOTE (1).md'', 20)]"
proof -
  let ?files = "[(''note.md'', 30), (''Note.md'', 10::int), (''NOTE (1).md'', 20)]"
  let ?d = "\<lparr> dirFiles = ?files, dirLog = [] \<rparr>"
  have dist: "distinct (map fst ?files)" by simp
  have f1: "filter (sameGroup ''note'') ?files = [(''note.md'', 30), (''Note.md'', 10)]"
    by code_simp
  have f2: "filter (sameGroup ''note1'') ?files = [(''NOTE (1).md'', 20)]"
    by code_simp
  have g: "\<forall>k. filter (sameGroup k) (dirFiles ?d) \<noteq> [] \<longrightarrow>
           filter (sameGroup k) (dirFiles (cleanDuplicateFiles noFaults ?d))
             = [earliest (filter (sameGroup k) (dirFiles ?d))]"
  proof -
    have dist': "distinct (map fst (dirFiles ?d))" by simp
    note t = cleanDuplicateFiles_keeps_earliest [of ?d 0 0 0]
    from t [THEN conjunct1, THEN mp, OF dist', THEN conjunct1] show ?thesis .
  qed
  have r1: "filter (sameGroup ''note'') (dirFiles (cleanDuplicateFiles noFaults ?d))
      = [(''Note.md'', 10)]"
    using g [rule_format, of "''note''"] f1 by simp
  have r2: "filter (sameGroup ''note1'') (dirFiles (cleanDuplicateFiles noFaults ?d))
      = [(''NOTE (1).md'', 20)]"
    using g [rule_format, of "''note1''"] f2 by simp
  have ne: "filter (sameGroup ''note'') ?files \<noteq> []" unfolding f1 by simp
  show ?thesis by (intro conjI) (rule dist ne r1 r2)+
qed

text \<open>
  C9 as stated: after a failed deletion the remaining duplicates are still deleted. They
  are not: the error leaves both loops, so with \<open>A.md\<close> failing first, \<open>a-.md\<close> and
  \<open>B.md\<close> stay, although deleting them would succeed.
\<close>

theorem cleanDuplicateFiles_failure_aborts_counterexample:
  "unlinkError vanishedA ''a-.md'' = None
   \<and> unlinkError vanishedA ''B.md'' = None
   \<and> dirFiles (cleanDuplicateFiles noFaults fiveFiles) = [(''a.md'', 1), (''b.md'', 1)]
   \<and> dirFiles (cleanDuplicateFiles vanishedA fiveFiles)
       = [(''a.md'', 1), (''A.md'', 2), (''a-.md'', 3), (''b.md'', 1), (''B.md'', 2)]
   \<and> dirLog (cleanDuplicateFiles vanishedA fiveFiles)
       = [LogError ''Failed to clean duplicates: Error: ENOENT: no such file or directory'']"
  by code_simp

text \<open>
  C9, amended. With a readable directory of distinct names, the reconciler deletes the
  files of its deletion schedule up to the first one whose deletion throws, and nothing
  after it; it logs every deletion and, if a deletion threw, the error; it returns in
  every case.
\<close>

theorem cleanDuplicateFiles_stops_at_first_failure:
  assumes "readdirError faults = None" "statError faults = (\<lambda>f. None)"
    "distinct (map fst (dirFiles d))"
  shows "dirFiles (cleanDuplicateFiles faults d)
       = filter (\<lambda>(name, birthtime).
                  name \<notin> set (takeWhile (\<lambda>f. unlinkError faults f = None)
                                 (deletionSchedule (dirFiles d))))
           (dirFiles d)
     \<and> dirLog (cleanDuplicateFiles faults d)
       = dirLog d
         @ map (\<lambda>f. LogInfo (''Deleted duplicate file: '' @ f))
             (takeWhile (\<lambda>f. unlinkError faults f = None) (deletionSchedule (dirFiles d)))
         @ (case dropWhile (\<lambda>f. unlinkError faults f = None) (deletionSchedule (dirFiles d)) of
              [] \<Rightarrow> []
            | f # rest \<Rightarrow>
                [LogError (''Failed to clean duplicates: ''
                             @ errorString (the (unlinkError faults f)))])"
proof -
  have ok: "unlinkOk faults = (\<lambda>f. unlinkError faults f = None)"
    by (simp add: unlinkOk_def fun_eq_iff)
  note r = cleanDuplicateFiles_result [OF assms]
  have files: "dirFiles (cleanDuplicateFiles faults d)
       = filter (\<lambda>(name, birthtime).
                  name \<notin> set (takeWhile (\<lambda>f. unlinkError faults f = None)
                                 (deletionSchedule (dirFiles d))))
           (dirFiles d)"
    unfolding r by (simp add: removeNames_def ok)
  have tail: "(case firstFailure faults (deletionSchedule (dirFiles d)) of
                 None \<Rightarrow> []
               | Some e \<Rightarrow> [LogError (''Failed to clean duplicates: '' @ errorString e)])
      = (case dropWhile (\<lambda>f. unlinkError faults f = None) (deletionSchedule (dirFiles d)) of
              [] \<Rightarrow> []
            | f # rest \<Rightarrow>
                [LogError (''Failed to clean duplicates: ''
                             @ errorString (the (unlinkError faults f)))])"
  proof (cases "dropWhile (\<lambda>f. unlinkError faults f = None) (deletionSchedule (dirFiles d))")
    case Nil
    show ?thesis unfolding firstFailure_def ok Nil by simp
  next
    case (Cons f rest)
    then have "dropWhile (\<lambda>f. unlinkError faults f = None) (deletionSchedule (dirFiles d)) \<noteq> []"
      by simp
    from hd_dropWhile [OF this] have "\<not> unlinkError faults f = None"
      unfolding Cons by simp
    then show ?thesis unfolding firstFailure_def ok Cons by auto
  qed
  have log: "dirLog (cleanDuplicateFiles faults d)
       = dirLog d
         @ map (\<lambda>f. LogInfo (''Deleted duplicate file: '' @ f))
             (takeWhile (\<lambda>f. unlinkError faults f = None) (deletionSchedule (dirFiles d)))
         @ (case dropWhile (\<lambda>f. unlinkError faults f = None) (deletionSchedule (dirFiles d)) of
              [] \<Rightarrow> []
            | f # rest \<Rightarrow>
                [LogError (''Failed to clean duplicates: ''
                             @ errorString (the (unlinkError faults f)))])"
    unfolding r tail [symmetric] by (simp add: deletedLog_def ok)
  show ?thesis using files log by (rule conjI)
qed

theorem cleanDuplicateFiles_stops_at_first_failure_witness:
  "readdirError vanishedA = None \<and> statError vanishedA = (\<lambda>f. None)
   \<and> distinct (map fst (dirFiles fiveFiles))
   \<and> deletionSchedule (dirFiles fiveFiles) = [''A.md'', ''a-.md'', ''B.md'']
   \<and> takeWhile (\<lambda>f. unlinkError vanishedA f = None) (deletionSchedule (dirFiles fiveFiles)) = []
   \<and> dirFiles (cleanDuplicateFiles vanishedA fiveFiles) = dirFiles fiveFiles
   \<and> dirLog (cleanDuplicateFiles vanishedA fiveFiles)
       = [LogError ''Failed to clean duplicates: Error: ENOENT: no such file or directory'']"
proof -
  have h1: "readdirError vanishedA = None" by (simp add: vanishedA_def noFaults_def)
  have h2: "statError vanishedA = (\<lambda>f. None)" by (simp add: vanishedA_def noFaults_def)
  have h3: "distinct (map fst (dirFiles fiveFiles))" by (simp add: fiveFiles_def)
  have sch: "deletionSchedule (dirFiles fiveFiles) = [''A.md'', ''a-.md'', ''B.md'']"
    by code_simp
  have ue: "unlinkError vanishedA ''A.md'' = Some (Error ''ENOENT: no such file or directory'')"
    by (simp add: vanishedA_def noFaults_def)
  have tw: "takeWhile (\<lambda>f. unlinkError vanishedA f = None) (deletionSchedule (dirFiles fiveFiles)) = []"
    unfolding sch using ue by simp
  have dw: "dropWhile (\<lambda>f. unlinkError vanishedA f = None) (deletionSchedule (dirFiles fiveFiles))
      = [''A.md'', ''a-.md'', ''B.md'']"
    unfolding sch using ue by simp
  note t = cleanDuplicateFiles_stops_at_first_failure [OF h1 h2 h3]
  have r1: "dirFiles (cleanDuplicateFiles vanishedA fiveFiles) = dirFiles fiveFiles"
    using t [THEN conjunct1] unfolding tw by simp
  have r2: "dirLog (cleanDuplicateFiles vanishedA fiveFiles)
       = [LogError ''Failed to clean duplicates: Error: ENOENT: no such file or directory'']"
    using t [THEN conjunct2] unfolding tw dw by (simp add: ue fiveFiles_def)
  show ?thesis by (intro conjI) (rule h1 h2 h3 sch tw r1 r2)+
qed


section \<open>Paths of the backlink files\<close>

lemma splitSlash_slash:
  "splitSlash cur (a @ CHR ''/'' # b) = splitSlash cur a @ splitSlash [] b"
  by (induction a arbitrary: cur) auto

lemma splitSlash_plain: "CHR ''/'' \<notin> set s \<Longrightarrow> splitSlash cur s = [cur @ s]"
  by (induction s arbitrary: cur) auto

lemma splitSlash_segments:
  "CHR ''/'' \<notin> set cur \<Longrightarrow> \<forall>seg \<in> set (splitSlash cur s). CHR ''/'' \<notin> set seg"
proof (induction s arbitrary: cur)
  case Nil
  then show ?case by simp
next
  case (Cons c cs)
  show ?case
  proof (cases "c = CHR ''/''")
    case True
    have "\<forall>seg \<in> set (splitSlash [] cs). CHR ''/'' \<notin> set seg"
      by (rule Cons.IH) simp
    then show ?thesis using True Cons.prems by simp
  next
    case False
    have "\<forall>seg \<in> set (splitSlash (cur @ [c]) cs). CHR ''/'' \<notin> set seg"
      by (rule Cons.IH) (use False Cons.prems in simp)
    then show ?thesis using False by simp
  qed
qed

lemma normalizeSegments_append:
  "normalizeSegments res (xs @ ys) = normalizeSegments (normalizeSegments res xs) ys"
  by (induction xs arbitrary: res) auto

text \<open>The segments of a normalised path: not empty, not \<open>.\<close> or \<open>..\<close>, without \<open>/\<close>.\<close>

lemma normalizeSegments_kept:
  "\<forall>seg \<in> set segs. seg \<noteq> [] \<and> seg \<noteq> ''.'' \<and> seg \<noteq> ''..'' \<Longrightarrow>
     normalizeSegments res segs = res @ segs"
  by (induction segs arbitrary: res) auto

lemma normalizeSegments_clean:
  assumes "\<forall>seg \<in> set res. seg \<noteq> [] \<and> seg \<noteq> ''.'' \<and> seg \<noteq> ''..'' \<and> CHR ''/'' \<notin> set seg"
    "\<forall>seg \<in> set segs. CHR ''/'' \<notin> set seg"
  shows "\<forall>seg \<in> set (normalizeSegments res segs).
           seg \<noteq> [] \<and> seg \<noteq> ''.'' \<and> seg \<noteq> ''..'' \<and> CHR ''/'' \<notin> set seg"
  using assms
proof (induction segs arbitrary: res)
  case Nil
  then show ?case by simp
next
  case (Cons seg segs)
  have b: "\<forall>x \<in> set (butlast res). x \<noteq> [] \<and> x \<noteq> ''.'' \<and> x \<noteq> ''..'' \<and> CHR ''/'' \<notin> set x"
    using Cons.prems(1) by (meson in_set_butlastD)
  have r: "\<forall>x \<in> set segs. CHR ''/'' \<notin> set x" using Cons.prems(2) by simp
  show ?case
  proof (cases "seg = [] \<or> seg = ''.''")
    case True
    then show ?thesis using Cons.IH [OF Cons.prems(1) r] by auto
  next
    case False
    show ?thesis
    proof (cases "seg = ''..''")
      case True
      then show ?thesis using Cons.IH [OF b r] by simp
    next
      case ndd: False
      have "\<forall>x \<in> set (res @ [seg]). x \<noteq> [] \<and> x \<noteq> ''.'' \<and> x \<noteq> ''..'' \<and> CHR ''/'' \<notin> set x"
        using Cons.prems False ndd by auto
      from Cons.IH [OF this r] show ?thesis using False ndd by simp
    qed
  qed
qed

lemma pathSegments_clean:
  "\<forall>seg \<in> set (pathSegments p).
     seg \<noteq> [] \<and> seg \<noteq> ''.'' \<and> seg \<noteq> ''..'' \<and> CHR ''/'' \<notin> set seg"
  unfolding pathSegments_def
proof (rule normalizeSegments_clean)
  show "\<forall>seg \<in> set []. seg \<noteq> [] \<and> seg \<noteq> ''.'' \<and> seg \<noteq> ''..'' \<and> CHR ''/'' \<notin> set seg"
    by simp
  show "\<forall>seg \<in> set (splitSlash [] p). CHR ''/'' \<notin> set seg"
    by (rule splitSlash_segments) simp
qed

lemma splitSlash_render:
  "CHR ''/'' \<notin> set s \<Longrightarrow> \<forall>seg \<in> set segs. CHR ''/'' \<notin> set seg \<Longrightarrow>
     splitSlash cur (s @ concat (map (\<lambda>seg. CHR ''/'' # seg) segs)) = (cur @ s) # segs"
proof (induction segs arbitrary: cur s)
  case Nil
  then show ?case by (simp add: splitSlash_plain)
next
  case (Cons t rest)
  have "splitSlash cur (s @ concat (map (\<lambda>seg. CHR ''/'' # seg) (t # rest)))
      = splitSlash cur (s @ CHR ''/'' # (t @ concat (map (\<lambda>seg. CHR ''/'' # seg) rest)))"
    by simp
  also have "\<dots> = splitSlash cur s @ splitSlash [] (t @ concat (map (\<lambda>seg. CHR ''/'' # seg) rest))"
    by (rule splitSlash_slash)
  also have "\<dots> = [cur @ s] @ (([] @ t) # rest)"
    using Cons.IH [of t "[]"] Cons.prems by (simp add: splitSlash_plain)
  finally show ?case by simp
qed

lemma pathSegments_renderPath:
  assumes "\<forall>seg \<in> set segs. seg \<noteq> [] \<and> seg \<noteq> ''.'' \<and> seg \<noteq> ''..'' \<and> CHR ''/'' \<notin> set seg"
  shows "pathSegments (renderPath segs) = segs"
proof (cases "segs = []")
  case True
  then show ?thesis by (simp add: pathSegments_def renderPath_def)
next
  case False
  have "splitSlash [] ([] @ concat (map (\<lambda>seg. CHR ''/'' # seg) segs)) = ([] @ []) # segs"
    using assms by (intro splitSlash_render) auto
  then have "pathSegments (renderPath segs) = normalizeSegments [] ([] # segs)"
    using False by (simp add: pathSegments_def renderPath_def)
  also have "\<dots> = normalizeSegments [] segs" by simp
  also have "\<dots> = [] @ segs" using assms by (intro normalizeSegments_kept) auto
  finally show ?thesis by simp
qed

lemma pathSegments_join:
  "pathSegments (renderPath (pathSegments dir) @ ''/'' @ name)
     = normalizeSegments (pathSegments dir) (splitSlash [] name)"
proof -
  have "pathSegments (renderPath (pathSegments dir) @ CHR ''/'' # name)
      = normalizeSegments [] (splitSlash [] (renderPath (pathSegments dir)) @ splitSlash [] name)"
    by (simp add: pathSegments_def splitSlash_slash)
  also have "\<dots> = normalizeSegments (pathSegments (renderPath (pathSegments dir))) (splitSlash [] name)"
    by (simp add: normalizeSegments_append pathSegments_def)
  also have "\<dots> = normalizeSegments (pathSegments dir) (splitSlash [] name)"
    by (simp add: pathSegments_renderPath [OF pathSegments_clean])
  finally show ?thesis by simp
qed

text \<open>The backlinks directory and the paths of the backlink files.\<close>

lemma BACKLINKS_DIR_render: "BACKLINKS_DIR cwd = renderPath (dirSegments cwd)"
  by (simp add: BACKLINKS_DIR_def pathJoin_def dirSegments_def)

lemma dirSegments_nonempty: "dirSegments cwd \<noteq> []"
proof -
  have "dirSegments cwd = normalizeSegments (pathSegments cwd) [''backlinks'']"
    by (simp add: dirSegments_def pathSegments_def splitSlash_slash normalizeSegments_append
        splitSlash_plain)
  then show ?thesis by simp
qed

lemma dirSegments_clean:
  "\<forall>seg \<in> set (dirSegments cwd).
     seg \<noteq> [] \<and> seg \<noteq> ''.'' \<and> seg \<noteq> ''..'' \<and> CHR ''/'' \<notin> set seg"
  unfolding dirSegments_def by (rule pathSegments_clean)

lemma md_name: "keyword @ ''.md'' \<noteq> []" "keyword @ ''.md'' \<noteq> ''.''" "keyword @ ''.md'' \<noteq> ''..''"
proof -
  show "keyword @ ''.md'' \<noteq> []" by simp
  have "length (keyword @ ''.md'') \<ge> 3" by simp
  then show "keyword @ ''.md'' \<noteq> ''.''" "keyword @ ''.md'' \<noteq> ''..''"
    by (metis length_Cons list.size(3) numeral_3_eq_3 not_less_eq_eq Suc_n_not_le_n le_SucI)+
qed

lemma backlinkPath_segments:
  assumes "CHR ''/'' \<notin> set keyword"
  shows "backlinkPath cwd keyword = renderPath (dirSegments cwd @ [keyword @ ''.md''])"
proof -
  have "pathSegments (BACKLINKS_DIR cwd @ ''/'' @ (keyword @ ''.md''))
      = normalizeSegments (dirSegments cwd) (splitSlash [] (keyword @ ''.md''))"
    unfolding BACKLINKS_DIR_render dirSegments_def by (rule pathSegments_join)
  also have "splitSlash [] (keyword @ ''.md'') = [keyword @ ''.md'']"
    using assms by (simp add: splitSlash_plain)
  also have "normalizeSegments (dirSegments cwd) [keyword @ ''.md''] = dirSegments cwd @ [keyword @ ''.md'']"
    using md_name [of keyword] by (intro normalizeSegments_kept) simp
  finally show ?thesis by (simp add: backlinkPath_def pathJoin_def)
qed

lemma renderPath_snoc:
  "segs \<noteq> [] \<Longrightarrow> renderPath (segs @ [x]) = renderPath segs @ ''/'' @ x"
  by (simp add: renderPath_def)

lemma backlinkPath_plain:
  "CHR ''/'' \<notin> set keyword \<Longrightarrow>
     backlinkPath cwd keyword = BACKLINKS_DIR cwd @ ''/'' @ keyword @ ''.md''"
  by (simp add: backlinkPath_segments renderPath_snoc [OF dirSegments_nonempty]
      BACKLINKS_DIR_render)

lemma backlinkPath_inj:
  "CHR ''/'' \<notin> set keyword \<Longrightarrow> CHR ''/'' \<notin> set keyword' \<Longrightarrow>
     backlinkPath cwd keyword = backlinkPath cwd keyword' \<longleftrightarrow> keyword = keyword'"
  by (simp add: backlinkPath_plain)

lemma backlinkPath_clean:
  assumes "CHR ''/'' \<notin> set keyword"
  shows "\<forall>seg \<in> set (dirSegments cwd @ [keyword @ ''.md'']).
     seg \<noteq> [] \<and> seg \<noteq> ''.'' \<and> seg \<noteq> ''..'' \<and> CHR ''/'' \<notin> set seg"
  using dirSegments_clean [of cwd] md_name [of keyword] assms by auto

lemma parentDir_backlinkPath:
  assumes "CHR ''/'' \<notin> set keyword"
  shows "parentDir (backlinkPath cwd keyword) = BACKLINKS_DIR cwd"
  unfolding parentDir_def backlinkPath_segments [OF assms]
    pathSegments_renderPath [OF backlinkPath_clean [OF assms]]
  by (simp add: BACKLINKS_DIR_render)

lemma ancestors_dir:
  "ancestors (renderPath (dirSegments cwd))
     = map (\<lambda>n. renderPath (take n (dirSegments cwd))) [0..<Suc (length (dirSegments cwd))]"
  unfolding ancestors_def pathSegments_renderPath [OF dirSegments_clean]
  by (rule refl)

lemma BACKLINKS_DIR_ancestor: "BACKLINKS_DIR cwd \<in> set (ancestors (BACKLINKS_DIR cwd))"
proof -
  have "renderPath (take (length (dirSegments cwd)) (dirSegments cwd))
      \<in> (\<lambda>n. renderPath (take n (dirSegments cwd))) ` {0..<Suc (length (dirSegments cwd))}"
    by (rule imageI) simp
  then have "renderPath (dirSegments cwd)
      \<in> (\<lambda>n. renderPath (take n (dirSegments cwd))) ` {0..<Suc (length (dirSegments cwd))}"
    by simp
  then show ?thesis
    unfolding BACKLINKS_DIR_render ancestors_dir set_map set_upt .
qed

lemma backlinkPath_not_ancestor:
  assumes "CHR ''/'' \<notin> set keyword"
  shows "backlinkPath cwd keyword \<notin> set (ancestors (BACKLINKS_DIR cwd))"
proof
  assume "backlinkPath cwd keyword \<in> set (ancestors (BACKLINKS_DIR cwd))"
  then have "backlinkPath cwd keyword
      \<in> (\<lambda>n. renderPath (take n (dirSegments cwd))) ` set [0..<Suc (length (dirSegments cwd))]"
    unfolding BACKLINKS_DIR_render ancestors_dir set_map .
  then obtain n where n: "backlinkPath cwd keyword = renderPath (take n (dirSegments cwd))"
    by (rule imageE)
  have c: "\<forall>seg \<in> set (take n (dirSegments cwd)).
     seg \<noteq> [] \<and> seg \<noteq> ''.'' \<and> seg \<noteq> ''..'' \<and> CHR ''/'' \<notin> set seg"
    using dirSegments_clean [of cwd] by (meson in_set_takeD)
  have "pathSegments (backlinkPath cwd keyword) = dirSegments cwd @ [keyword @ ''.md'']"
    unfolding backlinkPath_segments [OF assms]
    by (rule pathSegments_renderPath [OF backlinkPath_clean [OF assms]])
  moreover have "pathSegments (backlinkPath cwd keyword) = take n (dirSegments cwd)"
    unfolding n by (rule pathSegments_renderPath [OF c])
  ultimately have "length (dirSegments cwd @ [keyword @ ''.md'']) = length (take n (dirSegments cwd))"
    by simp
  then show False by simp
qed

section \<open>Backlink files\<close>

lemma includesStr_prefix: "includesStr (h @ rest) h"
proof (cases "h @ rest")
  case Nil
  then show ?thesis by simp
next
  case (Cons c cs)
  have "take (length h) (h @ rest) = h" by simp
  then show ?thesis unfolding Cons by simp
qed

lemma includesStr_fileOf: "includesStr (fileOf keyword titles) (headerOf keyword)"
  unfolding fileOf_def by (rule includesStr_prefix)

lemma not_includesStr_empty: "\<not> includesStr [] (headerOf keyword)"
  by (simp add: headerOf_def)

lemma writeBacklink_files:
  "blFiles (fst (writeBacklink cwd faults title keyword st)) =
     (case writeFails faults st (backlinkPath cwd keyword) of
        Some e \<Rightarrow> blFiles st
      | None \<Rightarrow>
          (case blFiles st (backlinkPath cwd keyword) of
             None \<Rightarrow> (blFiles st)(backlinkPath cwd keyword \<mapsto> fileOf keyword [title])
           | Some existing \<Rightarrow>
               if includesStr existing (headerOf keyword)
               then (blFiles st)(backlinkPath cwd keyword \<mapsto> existing @ referenceLine title)
               else (blFiles st)(backlinkPath cwd keyword \<mapsto> fileOf keyword [title])))"
proof (cases "writeFails faults st (backlinkPath cwd keyword)")
  case None
  show ?thesis
  proof (cases "blFiles st (backlinkPath cwd keyword)")
    case n: None
    show ?thesis using None n
      by (simp add: writeBacklink_def backlinkPath_def Let_def fileOf_def headerOf_def)
  next
    case (Some existing)
    show ?thesis using None Some
      by (simp add: writeBacklink_def backlinkPath_def Let_def fileOf_def)
  qed
next
  case (Some e)
  obtain msg where "e = Error msg" by (cases e)
  then show ?thesis using Some by (simp add: writeBacklink_def backlinkPath_def Let_def)
qed

lemma writeBacklink_dirs: "blDirs (fst (writeBacklink cwd faults title keyword st)) = blDirs st"
proof (cases "writeFails faults st (backlinkPath cwd keyword)")
  case None
  then show ?thesis by (simp add: writeBacklink_def backlinkPath_def Let_def)
next
  case (Some e)
  obtain msg where "e = Error msg" by (cases e)
  then show ?thesis using Some by (simp add: writeBacklink_def backlinkPath_def Let_def)
qed

lemma writeBacklink_error:
  "snd (writeBacklink cwd faults title keyword st) = writeFails faults st (backlinkPath cwd keyword)"
proof (cases "writeFails faults st (backlinkPath cwd keyword)")
  case None
  then show ?thesis by (simp add: writeBacklink_def backlinkPath_def Let_def)
next
  case (Some e)
  obtain msg where "e = Error msg" by (cases e)
  then show ?thesis using Some by (simp add: writeBacklink_def backlinkPath_def Let_def)
qed

lemma fileOf_snoc: "fileOf keyword titles @ referenceLine title = fileOf keyword (titles @ [title])"
  by (simp add: fileOf_def)

lemma writeBacklink_wellFormed:
  assumes "wellFormed cwd keyword allowed st" "title \<in> allowed"
    "backlinkPath cwd k = backlinkPath cwd keyword \<longrightarrow> k = keyword"
  shows "wellFormed cwd keyword allowed (fst (writeBacklink cwd faults title k st))"
proof (cases "writeFails faults st (backlinkPath cwd k)")
  case (Some e)
  then show ?thesis using assms(1) by (simp add: wellFormed_def writeBacklink_files)
next
  case None
  let ?p = "backlinkPath cwd keyword"
  show ?thesis
  proof (cases "k = keyword")
    case False
    then have "backlinkPath cwd k \<noteq> ?p" using assms(3) by blast
    then have "blFiles (fst (writeBacklink cwd faults title k st)) ?p = blFiles st ?p"
      using None by (simp add: writeBacklink_files split: option.splits)
    then show ?thesis using assms(1) by (simp add: wellFormed_def)
  next
    case True
    show ?thesis
    proof (cases "blFiles st ?p")
      case n: None
      have "blFiles (fst (writeBacklink cwd faults title keyword st)) ?p
          = Some (fileOf keyword [title])"
        using None n True by (simp add: writeBacklink_files)
      then show ?thesis unfolding wellFormed_def True using assms(2)
        by (intro allI impI exI [of _ "[title]"]) simp
    next
      case (Some old)
      obtain titles where t: "titles \<noteq> []" "set titles \<subseteq> allowed" "old = fileOf keyword titles"
        using assms(1) Some unfolding wellFormed_def by blast
      have inc: "includesStr old (headerOf keyword)" unfolding t(3) by (rule includesStr_fileOf)
      have "blFiles (fst (writeBacklink cwd faults title keyword st)) ?p
          = Some (fileOf keyword (titles @ [title]))"
        using None Some inc True by (simp add: writeBacklink_files t(3) fileOf_snoc)
      then show ?thesis unfolding wellFormed_def True using assms(2) t(2)
        by (intro allI impI exI [of _ "titles @ [title]"]) simp
    qed
  qed
qed

lemma writeBacklinks_wellFormed:
  "wellFormed cwd keyword allowed st \<Longrightarrow> title \<in> allowed \<Longrightarrow>
   \<forall>k \<in> set kws. backlinkPath cwd k = backlinkPath cwd keyword \<longrightarrow> k = keyword \<Longrightarrow>
     wellFormed cwd keyword allowed (fst (writeBacklinks cwd faults title kws st))"
proof (induction kws arbitrary: st)
  case Nil
  then show ?case by simp
next
  case (Cons x kws)
  obtain st' r where w: "writeBacklink cwd faults title x st = (st', r)"
    by (cases "writeBacklink cwd faults title x st")
  have k: "backlinkPath cwd x = backlinkPath cwd keyword \<longrightarrow> x = keyword"
    and ks: "\<forall>k \<in> set kws. backlinkPath cwd k = backlinkPath cwd keyword \<longrightarrow> k = keyword"
    using Cons.prems(3) by simp_all
  have wf: "wellFormed cwd keyword allowed st'"
    using writeBacklink_wellFormed [OF Cons.prems(1,2) k, of faults] w by simp
  show ?case
  proof (cases r)
    case None
    then show ?thesis using w Cons.IH [OF wf Cons.prems(2) ks] by simp
  next
    case (Some e)
    then show ?thesis using w wf by simp
  qed
qed

lemma ensureBacklinksDir_files: "blFiles (fst (ensureBacklinksDir cwd faults st)) = blFiles st"
proof (cases "mkdirRecursive faults (BACKLINKS_DIR cwd) st")
  case (Inl e)
  obtain msg where "e = Error msg" by (cases e)
  then show ?thesis using Inl by (simp add: ensureBacklinksDir_def)
next
  case (Inr st')
  then have "blFiles st' = blFiles st"
    by (auto simp: mkdirRecursive_def split: option.splits if_splits)
  then show ?thesis using Inr by (simp add: ensureBacklinksDir_def)
qed

lemma wellFormed_files:
  "blFiles st' = blFiles st \<Longrightarrow> wellFormed cwd keyword allowed st' = wellFormed cwd keyword allowed st"
  by (simp add: wellFormed_def)

text \<open>A call is the directory check and one loop over the write steps.\<close>

lemma writeBacklinks_append:
  "writeBacklinks cwd faults title (xs @ ys) st =
     (case writeBacklinks cwd faults title xs st of
        (st', Some e) \<Rightarrow> (st', Some e)
      | (st', None) \<Rightarrow> writeBacklinks cwd faults title ys st')"
proof (induction xs arbitrary: st)
  case Nil
  then show ?case by simp
next
  case (Cons x xs)
  obtain st' r where w: "writeBacklink cwd faults title x st = (st', r)"
    by (cases "writeBacklink cwd faults title x st")
  show ?case using w Cons.IH [of st'] by (cases r) simp_all
qed

lemma createBacklinks_steps:
  "createBacklinks cwd faults title content st =
     (case ensureBacklinksDir cwd faults st of
        (st0, Some e) \<Rightarrow> (st0, Inl e)
      | (st0, None) \<Rightarrow>
          (case writeBacklinks cwd faults title (writeSteps content) st0 of
             (st2, Some e) \<Rightarrow> (st2, Inl e)
           | (st2, None) \<Rightarrow> (st2, Inr (processContent content))))"
proof -
  obtain st0 r0 where e: "ensureBacklinksDir cwd faults st = (st0, r0)"
    by (cases "ensureBacklinksDir cwd faults st")
  show ?thesis
  proof (cases r0)
    case (Some err)
    then show ?thesis using e by (simp add: createBacklinks_def)
  next
    case None
    obtain st1 r1 where w1: "writeBacklinks cwd faults title (extractKeywords content) st0 = (st1, r1)"
      by (cases "writeBacklinks cwd faults title (extractKeywords content) st0")
    show ?thesis
      using e None w1
      by (cases r1)
        (simp_all add: createBacklinks_def Let_def writeSteps_def writeBacklinks_append
           processContent_def)
  qed
qed

lemma createBacklinks_wellFormed:
  assumes "wellFormed cwd keyword allowed st" "title \<in> allowed"
    "\<forall>k \<in> set (writeSteps content). backlinkPath cwd k = backlinkPath cwd keyword \<longrightarrow> k = keyword"
  shows "wellFormed cwd keyword allowed (fst (createBacklinks cwd faults title content st))"
proof -
  obtain st0 r0 where e: "ensureBacklinksDir cwd faults st = (st0, r0)"
    by (cases "ensureBacklinksDir cwd faults st")
  have "blFiles st0 = blFiles st" using ensureBacklinksDir_files [of cwd faults st] e by simp
  then have wf0: "wellFormed cwd keyword allowed st0"
    using assms(1) wellFormed_files [of st0 st] by simp
  obtain st2 r2 where w: "writeBacklinks cwd faults title (writeSteps content) st0 = (st2, r2)"
    by (cases "writeBacklinks cwd faults title (writeSteps content) st0")
  have wf2: "wellFormed cwd keyword allowed st2"
    using writeBacklinks_wellFormed [OF wf0 assms(2,3), of faults] w by simp
  have "fst (createBacklinks cwd faults title content st) = st0
      \<or> fst (createBacklinks cwd faults title content st) = st2"
    unfolding createBacklinks_steps e by (cases r0; cases r2) (simp_all add: w)
  then show ?thesis using wf0 wf2 by auto
qed

lemma createBacklinksRun_wellFormed:
  "wellFormed cwd keyword allowed st \<Longrightarrow>
   \<forall>(title, content) \<in> set calls.
      title \<in> allowed
      \<and> (\<forall>k \<in> set (writeSteps content).
            backlinkPath cwd k = backlinkPath cwd keyword \<longrightarrow> k = keyword) \<Longrightarrow>
     wellFormed cwd keyword allowed (createBacklinksRun cwd faults calls st)"
proof (induction calls arbitrary: st)
  case Nil
  then show ?case by simp
next
  case (Cons call calls)
  obtain title content where c: "call = (title, content)" by (cases call)
  have t: "title \<in> allowed"
    "\<forall>k \<in> set (writeSteps content). backlinkPath cwd k = backlinkPath cwd keyword \<longrightarrow> k = keyword"
    using Cons.prems(2) c by simp_all
  have step: "wellFormed cwd keyword allowed (fst (createBacklinks cwd faults title content st))"
    by (rule createBacklinks_wellFormed [OF Cons.prems(1) t])
  have rest: "\<forall>(title, content) \<in> set calls.
      title \<in> allowed
      \<and> (\<forall>k \<in> set (writeSteps content).
            backlinkPath cwd k = backlinkPath cwd keyword \<longrightarrow> k = keyword)"
    using Cons.prems(2) by simp
  show ?case unfolding c createBacklinksRun.simps by (rule Cons.IH [OF step rest])
qed

lemma linesOf_append_line:
  "CHR 0x0A \<notin> set l \<Longrightarrow> linesOf cur (l @ CHR 0x0A # rest) = (cur @ l) # linesOf [] rest"
  by (induction l arbitrary: cur) auto

lemma linesOf_references:
  "\<forall>t \<in> set titles. CHR 0x0A \<notin> set t \<Longrightarrow>
     linesOf [] (concat (map referenceLine titles))
       = map (\<lambda>t. ''[['' @ t @ '']]'') titles @ [[]]"
proof (induction titles)
  case Nil
  then show ?case by simp
next
  case (Cons t titles)
  have nl: "CHR 0x0A \<notin> set (''[['' @ t @ '']]'')" using Cons.prems by simp
  have "concat (map referenceLine (t # titles))
      = (''[['' @ t @ '']]'') @ CHR 0x0A # concat (map referenceLine titles)"
    by (simp add: referenceLine_def)
  then show ?case
    using linesOf_append_line [OF nl, of "[]" "concat (map referenceLine titles)"] Cons
    by simp
qed

lemma linesOf_fileOf:
  assumes "CHR 0x0A \<notin> set keyword" "\<forall>t \<in> set titles. CHR 0x0A \<notin> set t"
  shows "linesOf [] (fileOf keyword titles)
     = headerOf keyword # [] # map (\<lambda>t. ''[['' @ t @ '']]'') titles @ [[]]"
proof -
  have nl: "CHR 0x0A \<notin> set (headerOf keyword)" using assms(1) by (simp add: headerOf_def)
  have "fileOf keyword titles
      = headerOf keyword @ CHR 0x0A # ([] @ CHR 0x0A # concat (map referenceLine titles))"
    by (simp add: fileOf_def)
  then have "linesOf [] (fileOf keyword titles)
      = headerOf keyword # linesOf [] ([] @ CHR 0x0A # concat (map referenceLine titles))"
    using linesOf_append_line [OF nl, of "[]"] by simp
  then show ?thesis using linesOf_references [OF assms(2)] by simp
qed

lemma headerCount_fileOf:
  assumes "CHR 0x0A \<notin> set keyword" "\<forall>t \<in> set titles. CHR 0x0A \<notin> set t"
  shows "headerCount keyword (fileOf keyword titles) = 1"
proof -
  have "filter (\<lambda>l. l = headerOf keyword) (map (\<lambda>t. ''[['' @ t @ '']]'') titles) = []"
    by (simp add: filter_empty_conv headerOf_def)
  then show ?thesis
    unfolding headerCount_def linesOf_fileOf [OF assms]
    by (simp add: headerOf_def)
qed

lemma tracked_emptyStore: "tracked cwd (\<lambda>k. []) emptyStore"
  by (simp add: tracked_def emptyStore_def)

lemma ensureBacklinksDir_ok:
  assumes "tracked cwd f st" "mkdirError faults = None" "CHR 0x00 \<notin> set (BACKLINKS_DIR cwd)"
  shows "snd (ensureBacklinksDir cwd faults st) = None"
    "tracked cwd f (fst (ensureBacklinksDir cwd faults st))"
    "BACKLINKS_DIR cwd \<in> blDirs (fst (ensureBacklinksDir cwd faults st))"
proof -
  have nofile: "\<not> list_ex (\<lambda>p. blFiles st p \<noteq> None) (ancestors (BACKLINKS_DIR cwd))"
    using assms(1) by (simp add: tracked_def list_ex_iff)
  have m: "mkdirRecursive faults (BACKLINKS_DIR cwd) st
      = Inr (st\<lparr> blDirs := blDirs st \<union> set (ancestors (BACKLINKS_DIR cwd)) \<rparr>)"
    using assms(2,3) nofile by (simp add: mkdirRecursive_def)
  have e: "ensureBacklinksDir cwd faults st
      = (st\<lparr> blDirs := blDirs st \<union> set (ancestors (BACKLINKS_DIR cwd)),
              blLog := blLog st @ [LogInfo ''Backlinks directory initialized''] \<rparr>, None)"
    by (simp add: ensureBacklinksDir_def m)
  show "snd (ensureBacklinksDir cwd faults st) = None" by (simp add: e)
  show "tracked cwd f (fst (ensureBacklinksDir cwd faults st))"
    using assms(1) by (simp add: e tracked_def)
  show "BACKLINKS_DIR cwd \<in> blDirs (fst (ensureBacklinksDir cwd faults st))"
    using BACKLINKS_DIR_ancestor [of cwd] by (simp add: e)
qed

lemma writeFails_ok:
  assumes "blDirs st \<subseteq> set (ancestors (BACKLINKS_DIR cwd))" "BACKLINKS_DIR cwd \<in> blDirs st"
    "\<forall>p. writeError faults p = None" "CHR 0x00 \<notin> set (BACKLINKS_DIR cwd)"
    "CHR ''/'' \<notin> set keyword" "CHR 0x00 \<notin> set keyword"
  shows "writeFails faults st (backlinkPath cwd keyword) = None"
proof -
  have nul: "CHR 0x00 \<notin> set (backlinkPath cwd keyword)"
    using assms(4,6) by (simp add: backlinkPath_plain [OF assms(5)])
  have nd: "backlinkPath cwd keyword \<notin> blDirs st"
    using backlinkPath_not_ancestor [OF assms(5), of cwd] assms(1) by blast
  have pd: "parentDir (backlinkPath cwd keyword) \<in> blDirs st"
    using assms(2) by (simp add: parentDir_backlinkPath [OF assms(5)])
  show ?thesis using assms(3) nul nd pd by (simp add: writeFails_def)
qed

lemma writeBacklink_ok:
  assumes "tracked cwd f st" "BACKLINKS_DIR cwd \<in> blDirs st"
    "\<forall>p. writeError faults p = None" "CHR 0x00 \<notin> set (BACKLINKS_DIR cwd)"
    "CHR ''/'' \<notin> set keyword" "CHR 0x00 \<notin> set keyword"
  shows "snd (writeBacklink cwd faults title keyword st) = None"
    "tracked cwd (f(keyword := f keyword @ [title])) (fst (writeBacklink cwd faults title keyword st))"
    "BACKLINKS_DIR cwd \<in> blDirs (fst (writeBacklink cwd faults title keyword st))"
proof -
  let ?p = "backlinkPath cwd keyword"
  have d: "blDirs st \<subseteq> set (ancestors (BACKLINKS_DIR cwd))"
    using assms(1) by (simp add: tracked_def)
  have wf: "writeFails faults st ?p = None"
    by (rule writeFails_ok [OF d assms(2,3,4,5,6)])
  show "snd (writeBacklink cwd faults title keyword st) = None"
    by (simp add: writeBacklink_error wf)
  show "BACKLINKS_DIR cwd \<in> blDirs (fst (writeBacklink cwd faults title keyword st))"
    using assms(2) by (simp add: writeBacklink_dirs)
  have old: "blFiles st ?p = (if f keyword = [] then None else Some (fileOf keyword (f keyword)))"
    using assms(1,5) by (simp add: tracked_def)
  have new: "blFiles (fst (writeBacklink cwd faults title keyword st))
      = (blFiles st)(?p \<mapsto> fileOf keyword (f keyword @ [title]))"
  proof (cases "f keyword = []")
    case True
    then show ?thesis using old wf by (simp add: writeBacklink_files)
  next
    case False
    then show ?thesis using old wf
      by (simp add: writeBacklink_files includesStr_fileOf fileOf_snoc)
  qed
  have i: "blFiles (fst (writeBacklink cwd faults title keyword st)) (backlinkPath cwd k)
      = (if (f(keyword := f keyword @ [title])) k = [] then None
         else Some (fileOf k ((f(keyword := f keyword @ [title])) k)))"
    if k: "CHR ''/'' \<notin> set k" for k
  proof (cases "k = keyword")
    case True
    then show ?thesis by (simp add: new)
  next
    case False
    then have "backlinkPath cwd k \<noteq> ?p" using k assms(5) by (simp add: backlinkPath_inj)
    moreover have "blFiles st (backlinkPath cwd k)
        = (if f k = [] then None else Some (fileOf k (f k)))"
      using assms(1) k by (simp add: tracked_def)
    ultimately show ?thesis using False by (simp add: new)
  qed
  have iii: "blFiles (fst (writeBacklink cwd faults title keyword st)) p = None"
    if p: "p \<in> set (ancestors (BACKLINKS_DIR cwd))" for p
  proof -
    have "p \<noteq> ?p" using backlinkPath_not_ancestor [OF assms(5), of cwd] p by blast
    moreover have "blFiles st p = None" using assms(1) p by (simp add: tracked_def)
    ultimately show ?thesis by (simp add: new)
  qed
  show "tracked cwd (f(keyword := f keyword @ [title])) (fst (writeBacklink cwd faults title keyword st))"
    unfolding tracked_def
  proof (intro conjI allI impI ballI)
    fix k assume "CHR ''/'' \<notin> set k"
    then show "blFiles (fst (writeBacklink cwd faults title keyword st)) (backlinkPath cwd k)
      = (if (f(keyword := f keyword @ [title])) k = [] then None
         else Some (fileOf k ((f(keyword := f keyword @ [title])) k)))"
      by (rule i)
  next
    show "blDirs (fst (writeBacklink cwd faults title keyword st))
        \<subseteq> set (ancestors (BACKLINKS_DIR cwd))"
      using d by (simp add: writeBacklink_dirs)
  next
    fix p assume "p \<in> set (ancestors (BACKLINKS_DIR cwd))"
    then show "blFiles (fst (writeBacklink cwd faults title keyword st)) p = None" by (rule iii)
  qed
qed

lemma writeBacklinks_ok:
  assumes "\<forall>p. writeError faults p = None" "CHR 0x00 \<notin> set (BACKLINKS_DIR cwd)"
  shows "tracked cwd f st \<Longrightarrow> BACKLINKS_DIR cwd \<in> blDirs st \<Longrightarrow>
     \<forall>k \<in> set kws. CHR ''/'' \<notin> set k \<and> CHR 0x00 \<notin> set k \<Longrightarrow>
     snd (writeBacklinks cwd faults title kws st) = None
     \<and> tracked cwd (\<lambda>k. f k @ replicate (count_list kws k) title)
          (fst (writeBacklinks cwd faults title kws st))
     \<and> BACKLINKS_DIR cwd \<in> blDirs (fst (writeBacklinks cwd faults title kws st))"
proof (induction kws arbitrary: f st)
  case Nil
  then show ?case by simp
next
  case (Cons x kws)
  obtain st' r where w: "writeBacklink cwd faults title x st = (st', r)"
    by (cases "writeBacklink cwd faults title x st")
  have x: "CHR ''/'' \<notin> set x" "CHR 0x00 \<notin> set x"
    and xs: "\<forall>k \<in> set kws. CHR ''/'' \<notin> set k \<and> CHR 0x00 \<notin> set k"
    using Cons.prems(3) by simp_all
  note ok = writeBacklink_ok [OF Cons.prems(1,2) assms x, of title]
  have r: "r = None" using ok(1) w by simp
  have t: "tracked cwd (f(x := f x @ [title])) st'" using ok(2) w by simp
  have b: "BACKLINKS_DIR cwd \<in> blDirs st'" using ok(3) w by simp
  have eq: "(\<lambda>k. (f(x := f x @ [title])) k @ replicate (count_list kws k) title)
      = (\<lambda>k. f k @ replicate (count_list (x # kws) k) title)"
    by (rule ext) simp
  have step: "writeBacklinks cwd faults title (x # kws) st = writeBacklinks cwd faults title kws st'"
    using w r by simp
  show ?case unfolding step using Cons.IH [OF t b xs] unfolding eq .
qed

lemma createBacklinks_ok:
  assumes "mkdirError faults = None" "\<forall>p. writeError faults p = None"
    "CHR 0x00 \<notin> set (BACKLINKS_DIR cwd)" "tracked cwd f st"
    "\<forall>k \<in> set (writeSteps content). CHR ''/'' \<notin> set k \<and> CHR 0x00 \<notin> set k"
  shows "snd (createBacklinks cwd faults title content st) = Inr (processContent content)"
    "tracked cwd (\<lambda>k. f k @ replicate (count_list (writeSteps content) k) title)
       (fst (createBacklinks cwd faults title content st))"
proof -
  obtain st0 r0 where e: "ensureBacklinksDir cwd faults st = (st0, r0)"
    by (cases "ensureBacklinksDir cwd faults st")
  note ok0 = ensureBacklinksDir_ok [OF assms(4,1,3)]
  have r0: "r0 = None" and t0: "tracked cwd f st0" and b0: "BACKLINKS_DIR cwd \<in> blDirs st0"
    using ok0 e by simp_all
  obtain st2 r2 where w: "writeBacklinks cwd faults title (writeSteps content) st0 = (st2, r2)"
    by (cases "writeBacklinks cwd faults title (writeSteps content) st0")
  note ok2 = writeBacklinks_ok [OF assms(2,3) t0 b0 assms(5), of title]
  have r2: "r2 = None" using ok2 w by simp
  have t2: "tracked cwd (\<lambda>k. f k @ replicate (count_list (writeSteps content) k) title) st2"
    using ok2 w by simp
  have c: "createBacklinks cwd faults title content st = (st2, Inr (processContent content))"
    unfolding createBacklinks_steps e using r0 r2 w by simp
  show "snd (createBacklinks cwd faults title content st) = Inr (processContent content)"
    by (simp add: c)
  show "tracked cwd (\<lambda>k. f k @ replicate (count_list (writeSteps content) k) title)
       (fst (createBacklinks cwd faults title content st))"
    using t2 by (simp add: c)
qed

lemma referenceTitles_Cons:
  "referenceTitles ((title, content) # calls) k
     = replicate (count_list (writeSteps content) k) title @ referenceTitles calls k"
  by (simp add: referenceTitles_def)

lemma createBacklinksRun_ok:
  assumes "mkdirError faults = None" "\<forall>p. writeError faults p = None"
    "CHR 0x00 \<notin> set (BACKLINKS_DIR cwd)"
  shows "tracked cwd f st \<Longrightarrow>
     \<forall>(title, content) \<in> set calls.
        \<forall>k \<in> set (writeSteps content). CHR ''/'' \<notin> set k \<and> CHR 0x00 \<notin> set k \<Longrightarrow>
     tracked cwd (\<lambda>k. f k @ referenceTitles calls k) (createBacklinksRun cwd faults calls st)"
proof (induction calls arbitrary: f st)
  case Nil
  then show ?case by (simp add: referenceTitles_def)
next
  case (Cons call calls)
  obtain title content where c: "call = (title, content)" by (cases call)
  have s: "\<forall>k \<in> set (writeSteps content). CHR ''/'' \<notin> set k \<and> CHR 0x00 \<notin> set k"
    using Cons.prems(2) c by simp
  have rest: "\<forall>(title, content) \<in> set calls.
        \<forall>k \<in> set (writeSteps content). CHR ''/'' \<notin> set k \<and> CHR 0x00 \<notin> set k"
    using Cons.prems(2) by simp
  have step: "tracked cwd (\<lambda>k. f k @ replicate (count_list (writeSteps content) k) title)
       (fst (createBacklinks cwd faults title content st))"
    by (rule createBacklinks_ok(2) [OF assms Cons.prems(1) s])
  have eq: "(\<lambda>k. (f k @ replicate (count_list (writeSteps content) k) title) @ referenceTitles calls k)
      = (\<lambda>k. f k @ referenceTitles ((title, content) # calls) k)"
    by (rule ext) (simp add: referenceTitles_Cons)
  show ?case unfolding c createBacklinksRun.simps
    using Cons.IH [OF step rest] unfolding eq .
qed

lemma writeFails_dirs: "blDirs st' = blDirs st \<Longrightarrow> writeFails faults st' p = writeFails faults st p"
  by (simp add: writeFails_def)

text \<open>
  C7 as stated: after any sequence of calls the file of a keyword holds its header exactly
  once, and two calls for one keyword and two titles leave the header and two reference
  lines. For a keyword that \<open>createBacklinks\<close> extracts from the content two calls leave
  four lines: each call writes the file in the loop over the keywords and again in the loop
  over the links of the processed content. And the file of \<open>cat\<close> is also the file of the
  link \<open>./cat\<close>: the second call does not find its header there and writes the file anew,
  after which no line of the file is the header of \<open>cat\<close>.
\<close>

theorem createBacklinks_two_calls_counterexample:
  "blFiles (createBacklinksRun ''/home/notes'' noFaults [(''A'', ''apple''), (''B'', ''apple'')]
              emptyStore) (backlinkPath ''/home/notes'' ''apple'')
     = Some (''# apple'' @ [CHR 0x0A, CHR 0x0A] @ ''[[A]]'' @ [CHR 0x0A] @ ''[[A]]'' @ [CHR 0x0A]
              @ ''[[B]]'' @ [CHR 0x0A] @ ''[[B]]'' @ [CHR 0x0A])
   \<and> blFiles (createBacklinksRun ''/home/notes'' noFaults [(''A'', ''apple''), (''B'', ''apple'')]
              emptyStore) (backlinkPath ''/home/notes'' ''apple'')
     \<noteq> Some (''# apple'' @ [CHR 0x0A, CHR 0x0A] @ ''[[A]]'' @ [CHR 0x0A] @ ''[[B]]'' @ [CHR 0x0A])
   \<and> blFiles (createBacklinksRun ''/home/notes'' noFaults
                [(''A'', ''[[cat]]''), (''B'', ''[[./cat]]'')] emptyStore)
        (backlinkPath ''/home/notes'' ''cat'')
     = Some (''# ./cat'' @ [CHR 0x0A, CHR 0x0A] @ ''[[B]]'' @ [CHR 0x0A])
   \<and> headerCount ''cat'' (''# ./cat'' @ [CHR 0x0A, CHR 0x0A] @ ''[[B]]'' @ [CHR 0x0A]) = 0"
  by code_simp

lemma example_cat:
  "blFiles (createBacklinksRun ''/home/notes'' noFaults [(''A'', ''[[cat]]''), (''B'', ''[[cat]]'')]
              emptyStore) (backlinkPath ''/home/notes'' ''cat'')
     = Some (fileOf ''cat'' [''A'', ''B''])"
  by code_simp

lemma example_apple:
  "blFiles (createBacklinksRun ''/home/notes'' noFaults [(''A'', ''apple''), (''B'', ''apple'')]
              emptyStore) (backlinkPath ''/home/notes'' ''apple'')
     = Some (fileOf ''apple'' [''A'', ''A'', ''B'', ''B''])"
  by code_simp

text \<open>
  C7, amended. From a file system without backlink files, after any sequence of calls with
  titles of one line in which no other keyword or link has the path of the file of a
  keyword, the file of that keyword (of one line) holds its header line exactly once,
  followed by reference lines of titles of the calls. Keywords and links without \<open>/\<close> have
  the same path only when they are the same. A write step that does not fail writes the
  header and a first reference line when the file is absent or lacks the header, and
  appends exactly one reference line otherwise; two steps for titles A and B leave the
  header and the two lines in order, whether or not the titles differ. A call is the
  directory check followed by one write step for every extracted keyword and then one for
  every link of the processed content, in order and without deduplication. When no call of
  the file system fails and no keyword or link holds a \<open>/\<close>, the file of a keyword holds
  the header and, for each call in order, the title of the call once for every write step
  of the call for the keyword; there is no file when there is no such step. Two calls
  leave two lines for a keyword that is only a link (\<open>[[cat]]\<close>) and four for an extracted
  keyword.
\<close>

theorem createBacklinks_header_once:
  "((\<forall>(title, content) \<in> set calls.
        CHR 0x0A \<notin> set title
        \<and> (\<forall>k \<in> set (writeSteps content).
              backlinkPath cwd k = backlinkPath cwd keyword \<longrightarrow> k = keyword))
      \<and> CHR 0x0A \<notin> set keyword
      \<and> blFiles (createBacklinksRun cwd faults calls emptyStore) (backlinkPath cwd keyword)
          = Some existing
     \<longrightarrow> headerCount keyword existing = 1
         \<and> (\<exists>titles. titles \<noteq> [] \<and> set titles \<subseteq> fst ` set calls
               \<and> existing = fileOf keyword titles))
   \<and> (CHR ''/'' \<notin> set keyword \<and> CHR ''/'' \<notin> set link
     \<longrightarrow> (backlinkPath cwd link = backlinkPath cwd keyword \<longleftrightarrow> link = keyword))
   \<and> (writeFails faults st (backlinkPath cwd keyword) = None
        \<and> (blFiles st (backlinkPath cwd keyword) = None
             \<or> (\<exists>old. blFiles st (backlinkPath cwd keyword) = Some old
                       \<and> \<not> includesStr old (headerOf keyword)))
     \<longrightarrow> blFiles (fst (writeBacklink cwd faults title keyword st))
           = (blFiles st)(backlinkPath cwd keyword \<mapsto>
                headerOf keyword @ [CHR 0x0A, CHR 0x0A] @ referenceLine title))
   \<and> (writeFails faults st (backlinkPath cwd keyword) = None
        \<and> blFiles st (backlinkPath cwd keyword) = Some old \<and> includesStr old (headerOf keyword)
     \<longrightarrow> blFiles (fst (writeBacklink cwd faults title keyword st))
           = (blFiles st)(backlinkPath cwd keyword \<mapsto> old @ referenceLine title))
   \<and> (writeFails faults st (backlinkPath cwd keyword) = None
        \<and> blFiles st (backlinkPath cwd keyword) = None
     \<longrightarrow> blFiles (fst (writeBacklink cwd faults titleB keyword
                          (fst (writeBacklink cwd faults titleA keyword st))))
            (backlinkPath cwd keyword)
           = Some (headerOf keyword @ [CHR 0x0A, CHR 0x0A]
                    @ referenceLine titleA @ referenceLine titleB))
   \<and> createBacklinks cwd faults title content st =
       (case ensureBacklinksDir cwd faults st of
          (st0, Some e) \<Rightarrow> (st0, Inl e)
        | (st0, None) \<Rightarrow>
            (case writeBacklinks cwd faults title
                    (extractKeywords content @ extractLinks (processContent content)) st0 of
               (st2, Some e) \<Rightarrow> (st2, Inl e)
             | (st2, None) \<Rightarrow> (st2, Inr (processContent content))))
   \<and> (mkdirError faults = None \<and> (\<forall>p. writeError faults p = None)
        \<and> CHR 0x00 \<notin> set (BACKLINKS_DIR cwd)
        \<and> (\<forall>(title, content) \<in> set calls.
              \<forall>k \<in> set (writeSteps content). CHR ''/'' \<notin> set k \<and> CHR 0x00 \<notin> set k)
        \<and> CHR ''/'' \<notin> set keyword
     \<longrightarrow> blFiles (createBacklinksRun cwd faults calls emptyStore) (backlinkPath cwd keyword)
           = (if referenceTitles calls keyword = [] then None
              else Some (fileOf keyword (referenceTitles calls keyword))))
   \<and> blFiles (createBacklinksRun ''/home/notes'' noFaults
                [(''A'', ''[[cat]]''), (''B'', ''[[cat]]'')] emptyStore)
        (backlinkPath ''/home/notes'' ''cat'')
       = Some (fileOf ''cat'' [''A'', ''B''])
   \<and> blFiles (createBacklinksRun ''/home/notes'' noFaults
                [(''A'', ''apple''), (''B'', ''apple'')] emptyStore)
        (backlinkPath ''/home/notes'' ''apple'')
       = Some (fileOf ''apple'' [''A'', ''A'', ''B'', ''B''])"
proof -
  let ?p = "backlinkPath cwd keyword"
  have p1: "headerCount keyword existing = 1
         \<and> (\<exists>titles. titles \<noteq> [] \<and> set titles \<subseteq> fst ` set calls
               \<and> existing = fileOf keyword titles)"
    if h: "\<forall>(title, content) \<in> set calls.
        CHR 0x0A \<notin> set title
        \<and> (\<forall>k \<in> set (writeSteps content).
              backlinkPath cwd k = backlinkPath cwd keyword \<longrightarrow> k = keyword)"
      "CHR 0x0A \<notin> set keyword"
      "blFiles (createBacklinksRun cwd faults calls emptyStore) ?p = Some existing"
  proof -
    let ?allowed = "{t. CHR 0x0A \<notin> set t} \<inter> fst ` set calls"
    have wf0: "wellFormed cwd keyword ?allowed emptyStore"
      by (simp add: wellFormed_def emptyStore_def)
    have al: "\<forall>(title, content) \<in> set calls.
        title \<in> ?allowed
        \<and> (\<forall>k \<in> set (writeSteps content).
              backlinkPath cwd k = backlinkPath cwd keyword \<longrightarrow> k = keyword)"
      using h(1) by force
    have "wellFormed cwd keyword ?allowed (createBacklinksRun cwd faults calls emptyStore)"
      by (rule createBacklinksRun_wellFormed [OF wf0 al])
    then obtain titles where t: "titles \<noteq> []" "set titles \<subseteq> ?allowed"
        "existing = fileOf keyword titles"
      using h(3) unfolding wellFormed_def by blast
    have nl: "\<forall>t \<in> set titles. CHR 0x0A \<notin> set t" using t(2) by auto
    have "headerCount keyword existing = 1"
      unfolding t(3) by (rule headerCount_fileOf [OF h(2) nl])
    moreover have "set titles \<subseteq> fst ` set calls" using t(2) by auto
    ultimately show ?thesis using t(1,3) by blast
  qed
  have p0: "backlinkPath cwd link = backlinkPath cwd keyword \<longleftrightarrow> link = keyword"
    if h: "CHR ''/'' \<notin> set keyword" "CHR ''/'' \<notin> set link"
    using h by (simp add: backlinkPath_inj)
  have p2: "blFiles (fst (writeBacklink cwd faults title keyword st))
           = (blFiles st)(?p \<mapsto> headerOf keyword @ [CHR 0x0A, CHR 0x0A] @ referenceLine title)"
    if h: "writeFails faults st ?p = None"
      "blFiles st ?p = None
         \<or> (\<exists>old. blFiles st ?p = Some old \<and> \<not> includesStr old (headerOf keyword))"
    using h by (auto simp: writeBacklink_files fileOf_def referenceLine_def)
  have p3: "blFiles (fst (writeBacklink cwd faults title keyword st))
           = (blFiles st)(?p \<mapsto> old @ referenceLine title)"
    if h: "writeFails faults st ?p = None"
      "blFiles st ?p = Some old" "includesStr old (headerOf keyword)"
    using h by (simp add: writeBacklink_files)
  have p4: "blFiles (fst (writeBacklink cwd faults titleB keyword
                          (fst (writeBacklink cwd faults titleA keyword st)))) ?p
           = Some (headerOf keyword @ [CHR 0x0A, CHR 0x0A]
                    @ referenceLine titleA @ referenceLine titleB)"
    if h: "writeFails faults st ?p = None" "blFiles st ?p = None"
  proof -
    let ?st1 = "fst (writeBacklink cwd faults titleA keyword st)"
    have s1: "blFiles ?st1 ?p = Some (fileOf keyword [titleA])"
      using h by (simp add: writeBacklink_files)
    have w1: "writeFails faults ?st1 ?p = None"
      using h(1) writeFails_dirs [OF writeBacklink_dirs, of faults cwd faults titleA keyword st ?p]
      by simp
    have "blFiles (fst (writeBacklink cwd faults titleB keyword ?st1)) ?p
        = Some (fileOf keyword [titleA] @ referenceLine titleB)"
      using w1 s1 includesStr_fileOf [of keyword "[titleA]"]
      by (simp add: writeBacklink_files [of cwd faults titleB])
    then show ?thesis by (simp add: fileOf_def)
  qed
  have p5: "createBacklinks cwd faults title content st =
       (case ensureBacklinksDir cwd faults st of
          (st0, Some e) \<Rightarrow> (st0, Inl e)
        | (st0, None) \<Rightarrow>
            (case writeBacklinks cwd faults title
                    (extractKeywords content @ extractLinks (processContent content)) st0 of
               (st2, Some e) \<Rightarrow> (st2, Inl e)
             | (st2, None) \<Rightarrow> (st2, Inr (processContent content))))"
    using createBacklinks_steps [of cwd faults title content st]
    unfolding writeSteps_def .
  have p6: "blFiles (createBacklinksRun cwd faults calls emptyStore) ?p
           = (if referenceTitles calls keyword = [] then None
              else Some (fileOf keyword (referenceTitles calls keyword)))"
    if h: "mkdirError faults = None" "\<forall>p. writeError faults p = None"
        "CHR 0x00 \<notin> set (BACKLINKS_DIR cwd)"
        "\<forall>(title, content) \<in> set calls.
              \<forall>k \<in> set (writeSteps content). CHR ''/'' \<notin> set k \<and> CHR 0x00 \<notin> set k"
        "CHR ''/'' \<notin> set keyword"
  proof -
    have "tracked cwd (\<lambda>k. [] @ referenceTitles calls k)
        (createBacklinksRun cwd faults calls emptyStore)"
      by (rule createBacklinksRun_ok [OF h(1,2,3) tracked_emptyStore h(4)])
    then show ?thesis using h(5) by (simp add: tracked_def)
  qed
  show ?thesis
    by (intro conjI impI) (use p0 p1 p2 p3 p4 p5 p6 example_cat example_apple in blast)+
qed

theorem createBacklinks_header_once_witness:
  "CHR 0x0A \<notin> set ''A'' \<and> CHR 0x0A \<notin> set ''B''
   \<and> CHR 0x0A \<notin> set ''apple'' \<and> CHR ''/'' \<notin> set ''apple'' \<and> CHR ''/'' \<notin> set ''[[apple''
   \<and> backlinkPath ''/home/notes'' ''[[apple'' \<noteq> backlinkPath ''/home/notes'' ''apple''
   \<and> writeSteps ''apple pie'' = [''apple'', ''apple'']
   \<and> writeSteps ''an [[apple]]'' = [''apple'', ''[[apple'']
   \<and> mkdirError noFaults = None \<and> CHR 0x00 \<notin> set (BACKLINKS_DIR ''/home/notes'')
   \<and> referenceTitles [(''A'', ''apple pie''), (''B'', ''an [[apple]]'')] ''apple''
       = [''A'', ''A'', ''B'']
   \<and> blFiles (createBacklinksRun ''/home/notes'' noFaults
               [(''A'', ''apple pie''), (''B'', ''an [[apple]]'')] emptyStore)
        (backlinkPath ''/home/notes'' ''apple'')
       = Some (fileOf ''apple'' [''A'', ''A'', ''B''])
   \<and> headerCount ''apple'' (fileOf ''apple'' [''A'', ''A'', ''B'']) = 1
   \<and> writeFails noFaults (fst (ensureBacklinksDir ''/home/notes'' noFaults emptyStore))
        (backlinkPath ''/home/notes'' ''cat'') = None
   \<and> blFiles (fst (ensureBacklinksDir ''/home/notes'' noFaults emptyStore))
        (backlinkPath ''/home/notes'' ''cat'') = None
   \<and> blFiles (fst (writeBacklink ''/home/notes'' noFaults ''A'' ''cat''
                 (fst (ensureBacklinksDir ''/home/notes'' noFaults emptyStore))))
        (backlinkPath ''/home/notes'' ''cat'')
       = Some (''# cat'' @ [CHR 0x0A, CHR 0x0A] @ ''[[A]]'' @ [CHR 0x0A])
   \<and> writeFails noFaults
         (fst (writeBacklink ''/home/notes'' noFaults ''A'' ''cat''
                 (fst (ensureBacklinksDir ''/home/notes'' noFaults emptyStore))))
         (backlinkPath ''/home/notes'' ''cat'') = None
   \<and> includesStr (''# cat'' @ [CHR 0x0A, CHR 0x0A] @ ''[[A]]'' @ [CHR 0x0A]) (headerOf ''cat'')
   \<and> blFiles (fst (writeBacklink ''/home/notes'' noFaults ''B'' ''cat''
                 (fst (writeBacklink ''/home/notes'' noFaults ''A'' ''cat''
                    (fst (ensureBacklinksDir ''/home/notes'' noFaults emptyStore))))))
        (backlinkPath ''/home/notes'' ''cat'')
       = Some (''# cat'' @ [CHR 0x0A, CHR 0x0A] @ ''[[A]]'' @ [CHR 0x0A] @ ''[[B]]'' @ [CHR 0x0A])"
proof -
  let ?cwd = "''/home/notes''"
  let ?calls = "[(''A'', ''apple pie''), (''B'', ''an [[apple]]'')]"
  let ?st0 = "fst (ensureBacklinksDir ?cwd noFaults emptyStore)"
  let ?st1 = "fst (writeBacklink ?cwd noFaults ''A'' ''cat'' ?st0)"
  let ?old = "''# cat'' @ [CHR 0x0A, CHR 0x0A] @ ''[[A]]'' @ [CHR 0x0A]"
  have a: "CHR 0x0A \<notin> set ''A''" and b: "CHR 0x0A \<notin> set ''B''"
    and k1: "CHR 0x0A \<notin> set ''apple''" and k2: "CHR ''/'' \<notin> set ''apple''"
    and k3: "CHR ''/'' \<notin> set ''[[apple''"
    by simp_all
  note t = createBacklinks_header_once
    [where calls = ?calls and keyword = "''apple''" and cwd = ?cwd and faults = noFaults
       and existing = "fileOf ''apple'' [''A'', ''A'', ''B'']" and link = "''[[apple''"]
  have "backlinkPath ?cwd ''[[apple'' = backlinkPath ?cwd ''apple'' \<longleftrightarrow> ''[[apple'' = ''apple''"
    using t [THEN conjunct2, THEN conjunct1, THEN mp, OF conjI [OF k2 k3]] .
  then have other: "backlinkPath ?cwd ''[[apple'' \<noteq> backlinkPath ?cwd ''apple''" by simp
  have ws1: "writeSteps ''apple pie'' = [''apple'', ''apple'']" by code_simp
  have ws2: "writeSteps ''an [[apple]]'' = [''apple'', ''[[apple'']" by code_simp
  have m: "mkdirError noFaults = None" and w: "\<forall>p. writeError noFaults p = None"
    by (simp_all add: noFaults_def)
  have n: "CHR 0x00 \<notin> set (BACKLINKS_DIR ?cwd)" by code_simp
  have rt: "referenceTitles ?calls ''apple'' = [''A'', ''A'', ''B'']"
    by (simp add: referenceTitles_def ws1 ws2)
  have s1: "\<forall>(title, content) \<in> set ?calls.
      CHR 0x0A \<notin> set title
      \<and> (\<forall>k \<in> set (writeSteps content).
            backlinkPath ?cwd k = backlinkPath ?cwd ''apple'' \<longrightarrow> k = ''apple'')"
    using other by (simp add: ws1 ws2)
  have s2: "\<forall>(title, content) \<in> set ?calls.
      \<forall>k \<in> set (writeSteps content). CHR ''/'' \<notin> set k \<and> CHR 0x00 \<notin> set k"
    by (simp add: ws1 ws2)
  have "blFiles (createBacklinksRun ?cwd noFaults ?calls emptyStore) (backlinkPath ?cwd ''apple'')
      = (if referenceTitles ?calls ''apple'' = [] then None
         else Some (fileOf ''apple'' (referenceTitles ?calls ''apple'')))"
    using t [THEN conjunct2, THEN conjunct2, THEN conjunct2, THEN conjunct2, THEN conjunct2,
             THEN conjunct2, THEN conjunct1, THEN mp,
             OF conjI [OF m conjI [OF w conjI [OF n conjI [OF s2 k2]]]]] .
  then have f: "blFiles (createBacklinksRun ?cwd noFaults ?calls emptyStore)
        (backlinkPath ?cwd ''apple'') = Some (fileOf ''apple'' [''A'', ''A'', ''B''])"
    unfolding rt by simp
  have hc: "headerCount ''apple'' (fileOf ''apple'' [''A'', ''A'', ''B'']) = 1"
    using t [THEN conjunct1, THEN mp, OF conjI [OF s1 conjI [OF k1 f]], THEN conjunct1] .
  have wf: "writeFails noFaults ?st0 (backlinkPath ?cwd ''cat'') = None" by code_simp
  have ab: "blFiles ?st0 (backlinkPath ?cwd ''cat'') = None" by code_simp
  note u = createBacklinks_header_once
    [where keyword = "''cat''" and cwd = ?cwd and faults = noFaults and st = ?st0
       and title = "''A''" and titleA = "''A''" and titleB = "''B''"]
  have "blFiles ?st1
      = (blFiles ?st0)(backlinkPath ?cwd ''cat'' \<mapsto>
           headerOf ''cat'' @ [CHR 0x0A, CHR 0x0A] @ referenceLine ''A'')"
    using u [THEN conjunct2, THEN conjunct2, THEN conjunct1, THEN mp,
             OF conjI [OF wf disjI1 [OF ab]]] .
  then have one: "blFiles ?st1 (backlinkPath ?cwd ''cat'') = Some ?old"
    by (simp add: headerOf_def referenceLine_def)
  have wf1: "writeFails noFaults ?st1 (backlinkPath ?cwd ''cat'') = None" by code_simp
  have inc: "includesStr ?old (headerOf ''cat'')" by code_simp
  note v = createBacklinks_header_once
    [where keyword = "''cat''" and cwd = ?cwd and faults = noFaults and st = ?st1
       and title = "''B''" and old = ?old]
  have "blFiles (fst (writeBacklink ?cwd noFaults ''B'' ''cat'' ?st1))
      = (blFiles ?st1)(backlinkPath ?cwd ''cat'' \<mapsto> ?old @ referenceLine ''B'')"
    using v [THEN conjunct2, THEN conjunct2, THEN conjunct2, THEN conjunct1, THEN mp,
             OF conjI [OF wf1 conjI [OF one inc]]] .
  then have app: "blFiles (fst (writeBacklink ?cwd noFaults ''B'' ''cat'' ?st1))
        (backlinkPath ?cwd ''cat'')
      = Some (''# cat'' @ [CHR 0x0A, CHR 0x0A] @ ''[[A]]'' @ [CHR 0x0A] @ ''[[B]]'' @ [CHR 0x0A])"
    by (simp add: referenceLine_def)
  have "blFiles (fst (writeBacklink ?cwd noFaults ''B'' ''cat'' ?st1))
        (backlinkPath ?cwd ''cat'')
       = Some (headerOf ''cat'' @ [CHR 0x0A, CHR 0x0A] @ referenceLine ''A'' @ referenceLine ''B'')"
    using u [THEN conjunct2, THEN conjunct2, THEN conjunct2, THEN conjunct2, THEN conjunct1,
             THEN mp, OF conjI [OF wf ab]] .
  then have two: "blFiles (fst (writeBacklink ?cwd noFaults ''B'' ''cat'' ?st1))
        (backlinkPath ?cwd ''cat'')
       = Some (''# cat'' @ [CHR 0x0A, CHR 0x0A] @ ''[[A]]'' @ [CHR 0x0A] @ ''[[B]]'' @ [CHR 0x0A])"
    using app by (simp add: headerOf_def referenceLine_def)
  show ?thesis
    by (intro conjI) (rule a b k1 k2 k3 other ws1 ws2 m n rt f hc wf ab one wf1 inc two)+
qed

end
